theory Spec2Isabelle
  imports Main
begin

section \<open>The page-boundary scanner, the offset resolver and the index clamp\<close>

text \<open>
  The functions modelled here are \<^verbatim>\<open>clampIndex\<close>, \<^verbatim>\<open>computePagesRanges\<close> and
  \<^verbatim>\<open>findPageIndexAtOffset\<close> of the application module, and the timer logic of its
  \<^verbatim>\<open>App\<close> component.

  A JavaScript string is a sequence of UTF-16 code units, addressed by index. It is
  modelled as a \<^typ>\<open>string\<close>, one \<^typ>\<open>char\<close> for each code unit. The scanner compares
  code units with ASCII characters only (the key \<^verbatim>\<open>"pages"\<close>, the quote, the backslash,
  the braces and the brackets), so a code unit beyond ASCII behaves as any character
  that is none of these. Offsets and lengths are integers, as the program only ever
  computes them from indices.
\<close>

subsection \<open>Characters and the built-in \<^verbatim>\<open>String.prototype.indexOf\<close>\<close>

definition quote :: char where
  "quote = CHR 0x22"

definition backslash :: char where
  "backslash = CHR 0x5C"

definition pagesKey :: string where
  \<open>pagesKey = ''"pages"''\<close>

text \<open>
  \<open>indexOf text searchString position\<close> is the least index \<open>k \<ge> position\<close> at which
  \<open>searchString\<close> occurs in \<open>text\<close>, and \<open>-1\<close> when there is none.
\<close>

fun indexOf_aux :: "string \<Rightarrow> string \<Rightarrow> nat \<Rightarrow> int" where
  "indexOf_aux [] searchString k = (if searchString = [] then int k else - 1)"
| "indexOf_aux (c # cs) searchString k =
     (if take (length searchString) (c # cs) = searchString then int k
      else indexOf_aux cs searchString (k + 1))"

definition indexOf :: "string \<Rightarrow> string \<Rightarrow> nat \<Rightarrow> int" where
  "indexOf text searchString position =
     indexOf_aux (drop position text) searchString (min position (length text))"

text \<open>\<open>occurs_at pat text i\<close>: the string \<open>pat\<close> occurs in \<open>text\<close> at index \<open>i\<close>.\<close>

definition occurs_at :: "string \<Rightarrow> string \<Rightarrow> nat \<Rightarrow> bool" where
  "occurs_at pat text i = (take (length pat) (drop i text) = pat)"

subsection \<open>\<^verbatim>\<open>clampIndex\<close>\<close>

definition clampIndex :: "int \<Rightarrow> int \<Rightarrow> int" where
  "clampIndex idx len = (if len \<le> 0 then 0 else max 0 (min (len - 1) idx))"

subsection \<open>\<^verbatim>\<open>computePagesRanges\<close>\<close>

text \<open>
  A range is the object \<^verbatim>\<open>{ start, end }\<close> of the source; \<open>rstart\<close> and \<open>rend\<close> are its
  two fields.
\<close>

record page_range =
  rstart :: int
  rend :: int

text \<open>The local variables of the scanning loop, apart from the index \<open>i\<close>.\<close>

record scanner =
  inString :: bool
  escape :: bool
  depth :: nat
  start :: int
  ranges :: "page_range list"

text \<open>
  One pass through the loop body, on the character \<open>ch\<close> at index \<open>i\<close>. The result is
  \<open>None\<close> when the body executes \<^verbatim>\<open>break\<close>, and the updated locals otherwise.
\<close>

definition scan_step :: "char \<Rightarrow> nat \<Rightarrow> scanner \<Rightarrow> scanner option" where
  "scan_step ch i s =
     (if inString s then
        (if escape s then Some (s\<lparr>escape := False\<rparr>)
         else if ch = backslash then Some (s\<lparr>escape := True\<rparr>)
         else if ch = quote then Some (s\<lparr>inString := False\<rparr>)
         else Some s)
      else if ch = quote then Some (s\<lparr>inString := True\<rparr>)
      else if ch = CHR ''{'' then
        Some (s\<lparr>start := (if depth s = 0 then int i else start s), depth := depth s + 1\<rparr>)
      else if ch = CHR ''}'' then
        (let d = (if depth s > 0 then depth s - 1 else depth s) in
         if d = 0 \<and> start s \<ge> 0
         then Some (s\<lparr>depth := d,
                      ranges := ranges s @ [\<lparr>rstart = start s, rend = int i + 1\<rparr>],
                      start := - 1\<rparr>)
         else Some (s\<lparr>depth := d\<rparr>))
      else if ch = CHR '']'' \<and> depth s = 0 then None
      else Some s)"

function scan_loop :: "string \<Rightarrow> nat \<Rightarrow> scanner \<Rightarrow> page_range list" where
  "scan_loop text i s =
     (if i < length text then
        (case scan_step (text ! i) i s of
           None \<Rightarrow> ranges s
         | Some s' \<Rightarrow> scan_loop text (i + 1) s')
      else ranges s)"
  by pat_completeness auto
termination
  by (relation "measure (\<lambda>(text, i, s). length text - i)") auto

declare scan_loop.simps [simp del]

definition scan_init :: scanner where
  "scan_init = \<lparr>inString = False, escape = False, depth = 0, start = - 1, ranges = []\<rparr>"

definition computePagesRanges :: "string \<Rightarrow> page_range list" where
  "computePagesRanges text =
     (let keyIdx = indexOf text pagesKey 0 in
      if keyIdx < 0 then []
      else
        let arrStart = indexOf text ''['' (nat keyIdx) in
        if arrStart < 0 then []
        else scan_loop text (nat arrStart + 1) scan_init)"

text \<open>
  The same loop over the characters that remain from index \<open>i\<close> on; it is the form
  the proofs below work with.
\<close>

fun scan_list :: "string \<Rightarrow> nat \<Rightarrow> scanner \<Rightarrow> page_range list" where
  "scan_list [] i s = ranges s"
| "scan_list (c # cs) i s =
     (case scan_step c i s of
        None \<Rightarrow> ranges s
      | Some s' \<Rightarrow> scan_list cs (i + 1) s')"

subsection \<open>\<^verbatim>\<open>findPageIndexAtOffset\<close>\<close>

function find_loop :: "page_range list \<Rightarrow> int \<Rightarrow> nat \<Rightarrow> nat option" where
  "find_loop rs offset i =
     (if i < length rs then
        (if offset \<ge> rstart (rs ! i) \<and> offset \<le> rend (rs ! i) then Some i
         else find_loop rs offset (i + 1))
      else None)"
  by pat_completeness auto
termination
  by (relation "measure (\<lambda>(rs, offset, i). length rs - i)") auto

declare find_loop.simps [simp del]

definition findPageIndexAtOffset :: "page_range list \<Rightarrow> int \<Rightarrow> nat option" where
  "findPageIndexAtOffset rs offset = find_loop rs offset 0"

text \<open>\<open>covers r offset\<close>: the test of the resolver's loop, inclusive on both ends.\<close>

definition covers :: "page_range \<Rightarrow> int \<Rightarrow> bool" where
  "covers r offset = (rstart r \<le> offset \<and> offset \<le> rend r)"

subsection \<open>Array contents with balanced braces\<close>

text \<open>
  The shape of a text whose braces are balanced and whose strings are closed, written
  independently of the scanner. An array content is a sequence of items: a character
  outside any string and brace group, a quoted string, or a brace group \<^verbatim>\<open>{...}\<close> of
  further items. A string is a sequence of plain characters and of escape pairs (a
  backslash and the character after it). \<open>render\<close> writes an item out as text.
\<close>

datatype selem = Plain char | Esc char

datatype item = Other char | Str "selem list" | Group "item list"

fun render_selem :: "selem \<Rightarrow> string" where
  "render_selem (Plain c) = [c]"
| "render_selem (Esc c) = [backslash, c]"

definition render_body :: "selem list \<Rightarrow> string" where
  "render_body b = concat (map render_selem b)"

fun render :: "item \<Rightarrow> string" where
  "render (Other c) = [c]"
| "render (Str b) = quote # render_body b @ [quote]"
| "render (Group its) = CHR ''{'' # concat (map render its) @ [CHR ''}'']"

definition render_all :: "item list \<Rightarrow> string" where
  "render_all its = concat (map render its)"

text \<open>
  A plain character of a string is neither a quote nor a backslash. A character outside
  strings is neither a quote nor a brace, and at nesting depth 0 (\<open>outer\<close>) it is not
  the \<^verbatim>\<open>]\<close> that ends the array.
\<close>

fun selem_ok :: "selem \<Rightarrow> bool" where
  "selem_ok (Plain c) = (c \<noteq> quote \<and> c \<noteq> backslash)"
| "selem_ok (Esc c) = True"

fun item_ok :: "bool \<Rightarrow> item \<Rightarrow> bool" where
  "item_ok outer (Other c) =
     (c \<noteq> quote \<and> c \<noteq> CHR ''{'' \<and> c \<noteq> CHR ''}'' \<and> (outer \<longrightarrow> c \<noteq> CHR '']''))"
| "item_ok outer (Str b) = list_all selem_ok b"
| "item_ok outer (Group its) = list_all (item_ok False) its"

text \<open>
  The ranges of the brace groups at depth 1 of an item sequence that starts at index
  \<open>i\<close>, from left to right: each runs from its opening brace to just after its closing
  brace.
\<close>

fun is_group :: "item \<Rightarrow> bool" where
  "is_group (Group its) = True"
| "is_group it = False"

fun group_ranges :: "nat \<Rightarrow> item list \<Rightarrow> page_range list" where
  "group_ranges i [] = []"
| "group_ranges i (it # its) =
     (if is_group it then [\<lparr>rstart = int i, rend = int (i + length (render it))\<rparr>] else [])
     @ group_ranges (i + length (render it)) its"

subsection \<open>Array contents that are not finished\<close>

text \<open>
  At depth 0 the scanner steps over a closing brace, so there a character outside
  strings is any character but a quote, an opening brace and the \<^verbatim>\<open>]\<close> that ends the
  array.
\<close>

fun top_item_ok :: "item \<Rightarrow> bool" where
  "top_item_ok (Other c) = (c \<noteq> quote \<and> c \<noteq> CHR ''{'' \<and> c \<noteq> CHR '']'')"
| "top_item_ok (Str b) = list_all selem_ok b"
| "top_item_ok (Group its) = list_all (item_ok False) its"

text \<open>
  The text of the brace groups that are open, the innermost first in the list: each
  contributes its opening brace and the items read inside it so far.
\<close>

fun open_levels :: "item list list \<Rightarrow> string" where
  "open_levels [] = []"
| "open_levels (its # outer) = open_levels outer @ CHR ''{'' # render_all its"

text \<open>
  The text of a string that is open: its quote, the elements read so far, and a
  backslash when the next character is escaped.
\<close>

definition open_string :: "bool \<Rightarrow> bool \<Rightarrow> selem list \<Rightarrow> string" where
  "open_string inStr esc b =
     (if inStr then quote # render_body b @ (if esc then [backslash] else []) else [])"

text \<open>
  \<open>incomplete rest\<close>: the text \<open>rest\<close> is the beginning of an item and stops inside it,
  in a brace group or a string that is never closed.
\<close>

definition incomplete :: "string \<Rightarrow> bool" where
  "incomplete rest =
     (\<exists>levels inStr esc b.
        (levels \<noteq> [] \<or> inStr)
        \<and> list_all (list_all (item_ok False)) levels \<and> list_all selem_ok b
        \<and> rest = open_levels levels @ open_string inStr esc b)"

text \<open>
  The text read by the scanning loop between the index \<open>p\<close> where it starts and its
  index \<open>i\<close> consists of finished items \<open>fin\<close>, then of the open groups \<open>levels\<close> and
  of the open string \<open>b\<close>; the locals of the loop say the same.
\<close>

definition shape ::
  "string \<Rightarrow> nat \<Rightarrow> nat \<Rightarrow> scanner \<Rightarrow> item list \<Rightarrow> item list list \<Rightarrow> selem list \<Rightarrow> bool" where
  "shape tx p i s fin levels b =
     (take (i - p) (drop p tx)
        = render_all fin @ open_levels levels @ open_string (inString s) (escape s) b
      \<and> list_all top_item_ok fin
      \<and> list_all (list_all (item_ok False)) levels
      \<and> list_all selem_ok b
      \<and> depth s = length levels
      \<and> (escape s \<longrightarrow> inString s)
      \<and> ranges s = group_ranges p fin
      \<and> start s = (if levels = [] then - 1 else int (p + length (render_all fin))))"

definition scan_shape :: "string \<Rightarrow> nat \<Rightarrow> nat \<Rightarrow> scanner \<Rightarrow> bool" where
  "scan_shape tx p i s = (\<exists>fin levels b. shape tx p i s fin levels b)"

text \<open>An item is finished: it goes to the innermost open group, or to the finished items.\<close>

definition push :: "item \<Rightarrow> item list \<Rightarrow> item list list \<Rightarrow> item list \<times> item list list" where
  "push x fin levels =
     (case levels of [] \<Rightarrow> (fin @ [x], []) | its # outer \<Rightarrow> (fin, (its @ [x]) # outer))"

subsection \<open>The invariant of the scanning loop\<close>

text \<open>
  \<open>range_ok text n r\<close>: the range \<open>r\<close> is not empty, lies within the first \<open>n\<close>
  characters of the text, starts at an opening brace and ends just after a closing
  brace. \<open>disjoint_in_order\<close>: each range ends before the next one starts. \<open>scan_inv\<close>
  holds of the locals on entry to every pass through the loop.
\<close>

definition range_ok :: "string \<Rightarrow> nat \<Rightarrow> page_range \<Rightarrow> bool" where
  "range_ok text n r =
     (0 \<le> rstart r \<and> rstart r < rend r \<and> rend r \<le> int n
      \<and> text ! nat (rstart r) = CHR ''{'' \<and> text ! nat (rend r - 1) = CHR ''}'')"

definition disjoint_in_order :: "page_range list \<Rightarrow> bool" where
  "disjoint_in_order rs = sorted_wrt (\<lambda>r r'. rend r \<le> rstart r') rs"

definition scan_inv :: "string \<Rightarrow> nat \<Rightarrow> scanner \<Rightarrow> bool" where
  "scan_inv text i s =
     ((\<forall>r \<in> set (ranges s). range_ok text i r)
      \<and> disjoint_in_order (ranges s)
      \<and> (depth s = 0 \<longrightarrow> start s < 0)
      \<and> (0 \<le> start s \<longrightarrow>
           start s < int i \<and> text ! nat (start s) = CHR ''{''
           \<and> (\<forall>r \<in> set (ranges s). rend r \<le> start s)))"

section \<open>The timers of the \<^verbatim>\<open>App\<close> component\<close>

text \<open>
  The component keeps its state in React state variables and refs and reacts to events
  of the editor, of the preview and of the browser's timers. The model is a record of
  the variables that the timer logic reads or writes, and a function \<open>step\<close> with one
  equation for each event handler.

  \<^item> A parsed configuration is read only through the length of \<^verbatim>\<open>data.pages\<close>; it is
    modelled by that length, \<open>0\<close> when \<^verbatim>\<open>data.pages\<close> is not an array. \<open>None\<close> stands for
    \<^verbatim>\<open>null\<close>. \<^verbatim>\<open>JSON.parse\<close> is a parameter \<open>safeJsonParse\<close> of the model, which
    returns \<open>None\<close> when the text does not parse or parses to \<^verbatim>\<open>null\<close> or another falsy
    value: the component treats these alike (no preview, page count 0).
  \<^item> The browser's pending timeouts are a list of entries. \<^verbatim>\<open>setTimeout\<close> adds an entry
    under a handle never used before, \<^verbatim>\<open>clearTimeout\<close> removes the entry with a given
    handle, and an entry is removed when its callback is run. Time is not modelled: the
    event \<open>TimerFires h\<close> says that the delay of the pending entry \<open>h\<close> has elapsed.
  \<^item> A callback is the arrow function passed to \<^verbatim>\<open>setTimeout\<close>, with the values of the
    variables it closes over: \<^verbatim>\<open>nextText\<close>, and for the cursor callback the
    \<^verbatim>\<open>parsedConfig\<close> of the render in which the enclosing \<^verbatim>\<open>scheduleCursorSync\<close> was
    created. For a sync scheduled by \<^verbatim>\<open>onChange\<close> or by the effect on \<^verbatim>\<open>followCursor\<close> that
    is the current render. The cursor listener is registered once, by \<^verbatim>\<open>onMount\<close>, and
    belongs to the first render of the component, in which \<^verbatim>\<open>parsedConfig\<close> still has its
    initial value \<^verbatim>\<open>null\<close>. The refs and the cursor position are read when the code runs.
\<close>

datatype callback =
    ParseCallback string
  | CursorSyncCallback string "nat option"

record timer =
  handle :: nat
  delay :: nat
  callback :: callback

text \<open>
  The editor object held in \<^verbatim>\<open>monacoEditorRef\<close>: its text and the offset of its cursor
  (\<open>None\<close> when \<^verbatim>\<open>getPosition()\<close> or \<^verbatim>\<open>getModel()\<close> is \<^verbatim>\<open>null\<close>).
\<close>

record editor =
  edValue :: string
  edOffset :: "int option"

text \<open>
  The \<^verbatim>\<open>parsedConfig\<close> in the closure of the cursor listener: the initial value of the
  state variable, \<^verbatim>\<open>useState(null)\<close>.
\<close>

definition listenerConfig :: "nat option" where
  "listenerConfig = None"

record app =
  editorText :: string
  parsedConfig :: "nat option"
  activePageIndex :: int
  followCursor :: bool
  followCursorRef :: bool
  debounceRef :: "nat option"
  cursorDebounceRef :: "nat option"
  monacoEditorRef :: "editor option"
  timers :: "timer list"
  nextHandle :: nat

definition init :: app where
  "init = \<lparr>editorText = [], parsedConfig = None, activePageIndex = 0, followCursor = True,
           followCursorRef = True, debounceRef = None, cursorDebounceRef = None,
           monacoEditorRef = None, timers = [], nextHandle = 1\<rparr>"

text \<open>
  \<^verbatim>\<open>if (ref.current) window.clearTimeout(ref.current)\<close> and \<^verbatim>\<open>window.setTimeout\<close>.
\<close>

definition clearTimeout :: "nat option \<Rightarrow> app \<Rightarrow> app" where
  "clearTimeout ref st =
     (case ref of
        None \<Rightarrow> st
      | Some h \<Rightarrow> st\<lparr>timers := filter (\<lambda>t. handle t \<noteq> h) (timers st)\<rparr>)"

definition setTimeout :: "callback \<Rightarrow> nat \<Rightarrow> app \<Rightarrow> nat \<times> app" where
  "setTimeout cb ms st =
     (nextHandle st,
      st\<lparr>timers := timers st @ [\<lparr>handle = nextHandle st, delay = ms, callback = cb\<rparr>],
         nextHandle := nextHandle st + 1\<rparr>)"

definition scheduleParse :: "string \<Rightarrow> app \<Rightarrow> app" where
  "scheduleParse nextText st =
     (let st1 = clearTimeout (debounceRef st) st;
          (h, st2) = setTimeout (ParseCallback nextText) 450 st1
      in st2\<lparr>debounceRef := Some h\<rparr>)"

definition scheduleCursorSync :: "nat option \<Rightarrow> string \<Rightarrow> app \<Rightarrow> app" where
  "scheduleCursorSync config nextText st =
     (if \<not> followCursorRef st then st
      else case monacoEditorRef st of
        None \<Rightarrow> st
      | Some ed \<Rightarrow>
          (let st1 = clearTimeout (cursorDebounceRef st) st;
               (h, st2) = setTimeout (CursorSyncCallback nextText config) 120 st1
           in st2\<lparr>cursorDebounceRef := Some h\<rparr>))"

text \<open>
  \<^verbatim>\<open>Array.isArray(parsedConfig?.data?.pages) ? parsedConfig.data.pages.length : 0\<close>.
\<close>

definition pagesLength :: "nat option \<Rightarrow> nat" where
  "pagesLength config = (case config of None \<Rightarrow> 0 | Some n \<Rightarrow> n)"

text \<open>
  \<^verbatim>\<open>setParsedConfig\<close>, followed by the effect of \<^verbatim>\<open>StoryPreview\<close> that depends on
  \<^verbatim>\<open>pages.length\<close>: the preview is rendered when the configuration is not \<^verbatim>\<open>null\<close>, and
  when it is mounted or its number of pages changes it clamps the active index.
\<close>

definition setParsedConfig :: "nat option \<Rightarrow> app \<Rightarrow> app" where
  "setParsedConfig config st =
     (let st' = st\<lparr>parsedConfig := config\<rparr> in
      case config of
        None \<Rightarrow> st'
      | Some n \<Rightarrow>
          if parsedConfig st = Some n then st'
          else st'\<lparr>activePageIndex := clampIndex (activePageIndex st) (int n)\<rparr>)"

text \<open>The bodies of the two timer callbacks.\<close>

definition runCallback :: "(string \<Rightarrow> nat option) \<Rightarrow> callback \<Rightarrow> app \<Rightarrow> app" where
  "runCallback safeJsonParse cb st =
     (case cb of
        ParseCallback nextText \<Rightarrow> setParsedConfig (safeJsonParse nextText) st
      | CursorSyncCallback nextText config \<Rightarrow>
          (case monacoEditorRef st of
             None \<Rightarrow> st
           | Some ed \<Rightarrow>
               (case edOffset ed of
                  None \<Rightarrow> st
                | Some offset \<Rightarrow>
                    (let rs = computePagesRanges nextText in
                     case findPageIndexAtOffset rs offset of
                       None \<Rightarrow> st
                     | Some idx \<Rightarrow>
                         (let pagesLen = pagesLength config;
                              len = (if pagesLen \<noteq> 0 then pagesLen else length rs)
                          in st\<lparr>activePageIndex :=
                                  clampIndex (int idx) (int (if len \<noteq> 0 then len else 1))\<rparr>)))))"

text \<open>
  \<^verbatim>\<open>goPrev\<close> and \<^verbatim>\<open>goNext\<close> of \<^verbatim>\<open>StoryPreview\<close> (\<open>d\<close> is \<open>-1\<close> or \<open>1\<close>), with
  \<^verbatim>\<open>onManualNavigate\<close> and the effect that copies \<^verbatim>\<open>followCursor\<close> into its ref. The
  preview exists only while the configuration is not \<^verbatim>\<open>null\<close>.
\<close>

definition navigate :: "int \<Rightarrow> app \<Rightarrow> app" where
  "navigate d st =
     (case parsedConfig st of
        None \<Rightarrow> st
      | Some n \<Rightarrow>
          st\<lparr>followCursor := False, followCursorRef := False,
             activePageIndex := clampIndex (activePageIndex st + d) (int n)\<rparr>)"

text \<open>
  The checkbox, and the two effects that depend on \<^verbatim>\<open>followCursor\<close>: they run when its
  value changes, the first copies it into the ref, the second schedules a cursor sync.
\<close>

definition setFollowCursor :: "bool \<Rightarrow> app \<Rightarrow> app" where
  "setFollowCursor b st =
     (if parsedConfig st = None \<or> b = followCursor st then st
      else
        let st1 = st\<lparr>followCursor := b, followCursorRef := b\<rparr> in
        case monacoEditorRef st1 of
          None \<Rightarrow> st1
        | Some ed \<Rightarrow> scheduleCursorSync (parsedConfig st1) (edValue ed) st1)"

text \<open>\<^verbatim>\<open>setEditorText\<close>; the editor shows \<^verbatim>\<open>editorText\<close> as its value.\<close>

definition setEditorValue :: "string \<Rightarrow> app \<Rightarrow> app" where
  "setEditorValue val st =
     st\<lparr>editorText := val,
        monacoEditorRef := map_option (\<lambda>ed. ed\<lparr>edValue := val\<rparr>) (monacoEditorRef st)\<rparr>"

text \<open>
  The events: \<^verbatim>\<open>loadConfig\<close> and \<^verbatim>\<open>saveConfig\<close> receiving a text, the editor's
  \<^verbatim>\<open>onMount\<close>, \<^verbatim>\<open>onChange\<close> and cursor listener, a timeout elapsing, the navigation of
  the preview and the checkbox.
\<close>

datatype event =
    ConfigLoaded string
  | ConfigSaved string
  | EditorMounted
  | TextChanged string
  | CursorMoved int
  | TimerFires nat
  | GoPrev
  | GoNext
  | SetFollowCursor bool

fun step :: "(string \<Rightarrow> nat option) \<Rightarrow> event \<Rightarrow> app \<Rightarrow> app" where
  "step safeJsonParse (ConfigLoaded val) st =
     setParsedConfig (safeJsonParse val) (setEditorValue val st)"
| "step safeJsonParse (ConfigSaved val) st = setEditorValue val st"
| "step safeJsonParse EditorMounted st =
     (case monacoEditorRef st of
        Some ed \<Rightarrow> st
      | None \<Rightarrow>
          st\<lparr>monacoEditorRef :=
               Some \<lparr>edValue = editorText st, edOffset = Some 0\<rparr>\<rparr>)"
| "step safeJsonParse (TextChanged val) st =
     scheduleCursorSync (parsedConfig st) val (scheduleParse val (setEditorValue val st))"
| "step safeJsonParse (CursorMoved offset) st =
     (case monacoEditorRef st of
        None \<Rightarrow> st
      | Some ed \<Rightarrow>
          scheduleCursorSync listenerConfig (edValue ed)
            (st\<lparr>monacoEditorRef := Some (ed\<lparr>edOffset := Some offset\<rparr>)\<rparr>))"
| "step safeJsonParse (TimerFires h) st =
     (case find (\<lambda>t. handle t = h) (timers st) of
        None \<Rightarrow> st
      | Some t \<Rightarrow>
          runCallback safeJsonParse (callback t)
            (st\<lparr>timers := filter (\<lambda>t. handle t \<noteq> h) (timers st)\<rparr>))"
| "step safeJsonParse GoPrev st = navigate (- 1) st"
| "step safeJsonParse GoNext st = navigate 1 st"
| "step safeJsonParse (SetFollowCursor b) st = setFollowCursor b st"

definition run :: "(string \<Rightarrow> nat option) \<Rightarrow> event list \<Rightarrow> app \<Rightarrow> app" where
  "run safeJsonParse evs st = fold (step safeJsonParse) evs st"

text \<open>The pending timeouts of each kind.\<close>

fun is_parse :: "callback \<Rightarrow> bool" where
  "is_parse (ParseCallback nextText) = True"
| "is_parse (CursorSyncCallback nextText config) = False"

definition pending_parse :: "app \<Rightarrow> timer list" where
  "pending_parse st = filter (\<lambda>t. is_parse (callback t)) (timers st)"

definition pending_cursor :: "app \<Rightarrow> timer list" where
  "pending_cursor st = filter (\<lambda>t. \<not> is_parse (callback t)) (timers st)"

text \<open>
  The invariant of the timer table: handles are distinct and older than the next one,
  and every pending entry is the one its kind's ref points to.
\<close>

definition timers_inv :: "app \<Rightarrow> bool" where
  "timers_inv st =
     ((\<forall>t \<in> set (timers st). handle t < nextHandle st)
      \<and> distinct (map handle (timers st))
      \<and> (\<forall>h. debounceRef st = Some h \<longrightarrow> h < nextHandle st)
      \<and> (\<forall>h. cursorDebounceRef st = Some h \<longrightarrow> h < nextHandle st)
      \<and> (\<forall>h. debounceRef st = Some h \<longrightarrow> cursorDebounceRef st \<noteq> Some h)
      \<and> (\<forall>t \<in> set (timers st). is_parse (callback t) \<longrightarrow> debounceRef st = Some (handle t))
      \<and> (\<forall>t \<in> set (timers st). \<not> is_parse (callback t) \<longrightarrow>
            cursorDebounceRef st = Some (handle t)))"

definition cleared :: "nat option \<Rightarrow> timer list \<Rightarrow> timer list" where
  "cleared ref ts = (case ref of None \<Rightarrow> ts | Some h \<Rightarrow> filter (\<lambda>t. handle t \<noteq> h) ts)"

section \<open>Example inputs\<close>

definition ex_text :: string where
  \<open>ex_text = ''{"data":{"pages":[{"id":"a","t":{"x":[1]}},{"id":"b"}]}}''\<close>

definition ex_items :: "item list" where
  \<open>ex_items =
     [Group [Str (map Plain ''id''), Other CHR '':'', Str (map Plain ''a''), Other CHR '','',
             Str (map Plain ''t''), Other CHR '':'',
             Group [Str (map Plain ''x''), Other CHR '':'', Other CHR ''['', Other CHR ''1'',
                    Other CHR '']'']],
      Other CHR '','',
      Group [Str (map Plain ''id''), Other CHR '':'', Str (map Plain ''b'')]]\<close>

definition ex_truncated :: string where
  \<open>ex_truncated = ''{"pages":[{"a":1},{"b":{}},{"c":''\<close>

definition ex_open_string :: string where
  \<open>ex_open_string = ''{"pages":[{"a":"}''\<close>

definition ex_unbalanced :: string where
  \<open>ex_unbalanced = ''{"data":{"pages":[{"id":"{unbalanced"}]}}''\<close>

definition ex_escaped :: string where
  \<open>ex_escaped = ''{"pages":[{"k":"a'' @ [backslash] @ ''"}b"}]}''\<close>

definition ex_no_key :: string where
  \<open>ex_no_key = ''{"page":[{"id":"a"}]}''\<close>

definition ex_no_array :: string where
  \<open>ex_no_array = ''{"pages":{"id":"a"}}''\<close>

definition ex_one :: string where
  \<open>ex_one = ''{"data":{"pages":[{"id":"a"}]}}''\<close>

definition ex_two :: string where
  \<open>ex_two = ''{"data":{"pages":[{"id":"a"},{"id":"b"}]}}''\<close>

definition ex_parse :: "string \<Rightarrow> nat option" where
  "ex_parse val = (if val = ex_one then Some 1 else if val = ex_two then Some 2 else None)"

section \<open>Properties of the scanner, the resolver and the clamp\<close>

subsection \<open>The clamp\<close>

text \<open>
  Claim C6. Whatever the index, \<open>clampIndex idx len\<close> lies between \<open>0\<close> and \<open>len - 1\<close> when
  \<open>len\<close> is positive and is \<open>0\<close> when \<open>len\<close> is zero or negative; clamping a second time
  changes nothing.
\<close>

theorem clampIndex_total_idempotent:
  "(0 < len \<longrightarrow> 0 \<le> clampIndex idx len \<and> clampIndex idx len \<le> len - 1)
   \<and> (len \<le> 0 \<longrightarrow> clampIndex idx len = 0)
   \<and> clampIndex (clampIndex idx len) len = clampIndex idx len"
  by (auto simp: clampIndex_def)

theorem clampIndex_total_idempotent_witness:
  "(0::int) < 3 \<and> clampIndex 7 3 = 2 \<and> clampIndex (- 4) 3 = 0 \<and> clampIndex 1 3 = 1
   \<and> (0::int) \<le> 0 \<and> clampIndex 7 0 = 0 \<and> clampIndex (clampIndex 7 3) 3 = clampIndex 7 3"
  using clampIndex_total_idempotent[of 3 7] clampIndex_total_idempotent[of 0 7]
  by (simp add: clampIndex_def)

subsection \<open>The resolver\<close>

lemma find_loop_unfold:
  "find_loop rs off i =
     (if i < length rs then (if covers (rs ! i) off then Some i else find_loop rs off (i + 1)) else None)"
  by (subst find_loop.simps) (simp add: covers_def)

lemma find_loop_Some:
  "find_loop rs off i = Some k \<longleftrightarrow>
     (i \<le> k \<and> k < length rs \<and> covers (rs ! k) off \<and> (\<forall>j. i \<le> j \<and> j < k \<longrightarrow> \<not> covers (rs ! j) off))"
proof (induction rs off i rule: find_loop.induct)
  case (1 rs offset i)
  show ?case
  proof (cases "i < length rs")
    case False
    then show ?thesis by (subst find_loop_unfold) auto
  next
    case True
    show ?thesis
    proof (cases "covers (rs ! i) offset")
      case hit: True
      have eq: "find_loop rs offset i = Some i"
        using True hit by (subst find_loop_unfold) simp
      show ?thesis
      proof
        assume "find_loop rs offset i = Some k"
        with eq have "k = i" by simp
        with True hit show "i \<le> k \<and> k < length rs \<and> covers (rs ! k) offset \<and>
            (\<forall>j. i \<le> j \<and> j < k \<longrightarrow> \<not> covers (rs ! j) offset)" by auto
      next
        assume R: "i \<le> k \<and> k < length rs \<and> covers (rs ! k) offset \<and>
            (\<forall>j. i \<le> j \<and> j < k \<longrightarrow> \<not> covers (rs ! j) offset)"
        have "\<not> i < k"
        proof
          assume "i < k"
          with R have "\<not> covers (rs ! i) offset" by blast
          with hit show False by simp
        qed
        with R have "k = i" by simp
        with eq show "find_loop rs offset i = Some k" by simp
      qed
    next
      case miss: False
      have eq: "find_loop rs offset i = find_loop rs offset (i + 1)"
        using True miss by (subst find_loop_unfold) simp
      have ih: "find_loop rs offset (i + 1) = Some k \<longleftrightarrow>
          (i + 1 \<le> k \<and> k < length rs \<and> covers (rs ! k) offset \<and>
              (\<forall>j. i + 1 \<le> j \<and> j < k \<longrightarrow> \<not> covers (rs ! j) offset))"
        using "1.IH" True miss by (simp add: covers_def)
      show ?thesis
      proof
        assume "find_loop rs offset i = Some k"
        with eq ih have R: "i + 1 \<le> k \<and> k < length rs \<and> covers (rs ! k) offset \<and>
              (\<forall>j. i + 1 \<le> j \<and> j < k \<longrightarrow> \<not> covers (rs ! j) offset)" by simp
        have "\<not> covers (rs ! j) offset" if "i \<le> j \<and> j < k" for j
        proof (cases "j = i")
          case True
          with miss show ?thesis by simp
        next
          case False
          with that have "i + 1 \<le> j \<and> j < k" by simp
          with R show ?thesis by blast
        qed
        with R show "i \<le> k \<and> k < length rs \<and> covers (rs ! k) offset \<and>
            (\<forall>j. i \<le> j \<and> j < k \<longrightarrow> \<not> covers (rs ! j) offset)" by simp
      next
        assume L: "i \<le> k \<and> k < length rs \<and> covers (rs ! k) offset \<and>
            (\<forall>j. i \<le> j \<and> j < k \<longrightarrow> \<not> covers (rs ! j) offset)"
        with miss have "i \<noteq> k" by auto
        with L have "i + 1 \<le> k \<and> k < length rs \<and> covers (rs ! k) offset \<and>
              (\<forall>j. i + 1 \<le> j \<and> j < k \<longrightarrow> \<not> covers (rs ! j) offset)" by simp
        with eq ih show "find_loop rs offset i = Some k" by simp
      qed
    qed
  qed
qed

lemma find_loop_None:
  "find_loop rs off i = None \<longleftrightarrow> (\<forall>j. i \<le> j \<and> j < length rs \<longrightarrow> \<not> covers (rs ! j) off)"
proof
  assume N: "find_loop rs off i = None"
  show "\<forall>j. i \<le> j \<and> j < length rs \<longrightarrow> \<not> covers (rs ! j) off"
  proof (rule ccontr)
    assume "\<not> (\<forall>j. i \<le> j \<and> j < length rs \<longrightarrow> \<not> covers (rs ! j) off)"
    then have ex: "\<exists>j. i \<le> j \<and> j < length rs \<and> covers (rs ! j) off" by blast
    define k where "k = (LEAST j. i \<le> j \<and> j < length rs \<and> covers (rs ! j) off)"
    have k: "i \<le> k \<and> k < length rs \<and> covers (rs ! k) off"
      unfolding k_def using ex by (rule LeastI_ex)
    have "\<not> covers (rs ! j) off" if "i \<le> j \<and> j < k" for j
    proof
      assume "covers (rs ! j) off"
      with that k have "i \<le> j \<and> j < length rs \<and> covers (rs ! j) off" by simp
      then have "k \<le> j" unfolding k_def by (rule Least_le)
      with that show False by simp
    qed
    with k have "find_loop rs off i = Some k" by (simp add: find_loop_Some)
    with N show False by simp
  qed
next
  assume A: "\<forall>j. i \<le> j \<and> j < length rs \<longrightarrow> \<not> covers (rs ! j) off"
  show "find_loop rs off i = None"
  proof (cases "find_loop rs off i")
    case None
    then show ?thesis .
  next
    case (Some k)
    then have "i \<le> k \<and> k < length rs \<and> covers (rs ! k) off" by (simp add: find_loop_Some)
    with A show ?thesis by blast
  qed
qed

text \<open>
  Claim C5. \<open>findPageIndexAtOffset\<close> returns the first index whose range covers the
  offset, both ends included, and \<open>None\<close> exactly when no range covers it. For the range
  from 5 to 20, among ranges that do not cover the offset, the result is that range's
  index for every offset from 5 to 20 and \<open>None\<close> for every other offset, 4 and 21 among
  them.
\<close>

theorem findPageIndexAtOffset_first_match:
  "(findPageIndexAtOffset rs offset = Some i \<longleftrightarrow>
      i < length rs \<and> covers (rs ! i) offset \<and> (\<forall>j < i. \<not> covers (rs ! j) offset))
   \<and> (findPageIndexAtOffset rs offset = None \<longleftrightarrow> (\<forall>j < length rs. \<not> covers (rs ! j) offset))
   \<and> ((\<forall>r \<in> set pre \<union> set post. \<not> covers r offset) \<longrightarrow>
        findPageIndexAtOffset (pre @ [\<lparr>rstart = 5, rend = 20\<rparr>] @ post) offset
          = (if 5 \<le> offset \<and> offset \<le> 20 then Some (length pre) else None))"
proof (intro conjI impI)
  show "findPageIndexAtOffset rs offset = Some i \<longleftrightarrow>
      i < length rs \<and> covers (rs ! i) offset \<and> (\<forall>j < i. \<not> covers (rs ! j) offset)"
    by (simp add: findPageIndexAtOffset_def find_loop_Some)
  show "findPageIndexAtOffset rs offset = None \<longleftrightarrow> (\<forall>j < length rs. \<not> covers (rs ! j) offset)"
    by (simp add: findPageIndexAtOffset_def find_loop_None)
  assume A: "\<forall>r \<in> set pre \<union> set post. \<not> covers r offset"
  let ?rs = "pre @ [\<lparr>rstart = 5, rend = 20\<rparr>] @ post"
  show "findPageIndexAtOffset ?rs offset = (if 5 \<le> offset \<and> offset \<le> 20 then Some (length pre) else None)"
  proof (cases "5 \<le> offset \<and> offset \<le> 20")
    case True
    have "\<not> covers (?rs ! j) offset" if "j < length pre" for j
      using that A by (simp add: nth_append)
    moreover have "covers (?rs ! length pre) offset"
      using True by (simp add: covers_def)
    ultimately have "find_loop ?rs offset 0 = Some (length pre)"
      by (simp add: find_loop_Some)
    with True show ?thesis by (simp add: findPageIndexAtOffset_def)
  next
    case False
    have "\<not> covers r offset" if "r \<in> set ?rs" for r
      using that A False by (auto simp: covers_def)
    then have "\<forall>j. 0 \<le> j \<and> j < length ?rs \<longrightarrow> \<not> covers (?rs ! j) offset"
      using nth_mem by blast
    then have "find_loop ?rs offset 0 = None"
      by (simp only: find_loop_None)
    with False show ?thesis by (simp add: findPageIndexAtOffset_def)
  qed
qed

theorem findPageIndexAtOffset_first_match_witness:
  "findPageIndexAtOffset [\<lparr>rstart = 0, rend = 3\<rparr>, \<lparr>rstart = 5, rend = 20\<rparr>, \<lparr>rstart = 18, rend = 30\<rparr>] 19 = Some 1
   \<and> findPageIndexAtOffset [\<lparr>rstart = 0, rend = 3\<rparr>, \<lparr>rstart = 5, rend = 20\<rparr>] 4 = None
   \<and> findPageIndexAtOffset [\<lparr>rstart = 0, rend = 3\<rparr>, \<lparr>rstart = 5, rend = 20\<rparr>] 21 = None
   \<and> findPageIndexAtOffset [\<lparr>rstart = 0, rend = 3\<rparr>, \<lparr>rstart = 5, rend = 20\<rparr>] 5 = Some 1
   \<and> findPageIndexAtOffset [\<lparr>rstart = 0, rend = 3\<rparr>, \<lparr>rstart = 5, rend = 20\<rparr>] 20 = Some 1"
  using findPageIndexAtOffset_first_match[of "[\<lparr>rstart = 0, rend = 3\<rparr>, \<lparr>rstart = 5, rend = 20\<rparr>, \<lparr>rstart = 18, rend = 30\<rparr>]" 19 1 "[]" "[]"]
    findPageIndexAtOffset_first_match[of "[]" 4 0 "[\<lparr>rstart = 0, rend = 3\<rparr>]" "[]"]
    findPageIndexAtOffset_first_match[of "[]" 21 0 "[\<lparr>rstart = 0, rend = 3\<rparr>]" "[]"]
    findPageIndexAtOffset_first_match[of "[]" 5 0 "[\<lparr>rstart = 0, rend = 3\<rparr>]" "[]"]
    findPageIndexAtOffset_first_match[of "[]" 20 0 "[\<lparr>rstart = 0, rend = 3\<rparr>]" "[]"]
  by (simp add: covers_def nth_Cons' less_Suc_eq)

subsection \<open>The scanner on balanced array contents\<close>

lemma scan_loop_list:
  "i \<le> length tx \<Longrightarrow> scan_loop tx i s = scan_list (drop i tx) i s"
proof (induction tx i s rule: scan_loop.induct)
  case (1 tx i s)
  show ?case
  proof (cases "i < length tx")
    case False
    with "1.prems" show ?thesis by (subst scan_loop.simps) simp
  next
    case True
    then have d: "drop i tx = tx ! i # drop (i + 1) tx"
      by (simp add: Cons_nth_drop_Suc)
    show ?thesis
    proof (cases "scan_step (tx ! i) i s")
      case None
      with True d show ?thesis by (subst scan_loop.simps) simp
    next
      case (Some s')
      have "scan_loop tx (i + 1) s' = scan_list (drop (i + 1) tx) (i + 1) s'"
        using "1.IH"[OF True Some] True by simp
      with True d Some show ?thesis by (subst scan_loop.simps) simp
    qed
  qed
qed

lemma scan_body:
  assumes "inString s" "\<not> escape s" "list_all selem_ok b"
  shows "scan_list (render_body b @ rest) i s = scan_list rest (i + length (render_body b)) s"
  using assms
proof (induction b arbitrary: i)
  case Nil
  then show ?case by (simp add: render_body_def)
next
  case (Cons e b)
  then have ih: "scan_list (render_body b @ rest) j s = scan_list rest (j + length (render_body b)) s" for j
    by simp
  show ?case
  proof (cases e)
    case (Plain c)
    with Cons.prems have "scan_step c i s = Some s"
      by (simp add: scan_step_def)
    with Plain ih[of "i + 1"] show ?thesis by (simp add: render_body_def)
  next
    case (Esc c)
    from Cons.prems have 1: "scan_step backslash i s = Some (s\<lparr>escape := True\<rparr>)"
      by (simp add: scan_step_def)
    from Cons.prems have 2: "scan_step c (i + 1) (s\<lparr>escape := True\<rparr>) = Some s"
      by (simp add: scan_step_def)
    from Esc 1 2 ih[of "i + 2"] show ?thesis by (simp add: render_body_def)
  qed
qed

lemma scan_str:
  assumes "\<not> inString s" "\<not> escape s" "list_all selem_ok b"
  shows "scan_list (render (Str b) @ rest) i s = scan_list rest (i + length (render (Str b))) s"
proof -
  have 1: "scan_step quote i s = Some (s\<lparr>inString := True\<rparr>)"
    using assms by (simp add: scan_step_def)
  have 2: "scan_list (render_body b @ quote # rest) (i + 1) (s\<lparr>inString := True\<rparr>)
        = scan_list (quote # rest) (i + 1 + length (render_body b)) (s\<lparr>inString := True\<rparr>)"
    using assms by (intro scan_body) simp_all
  have 3: "scan_step quote j (s\<lparr>inString := True\<rparr>) = Some s" for j
    using assms by (simp add: scan_step_def quote_def backslash_def)
  from 1 2 3 show ?thesis by simp
qed

lemma scan_inner_items:
  assumes "\<And>it rest i s. it \<in> set its \<Longrightarrow> item_ok False it \<Longrightarrow> \<not> inString s \<Longrightarrow> \<not> escape s \<Longrightarrow> 0 < depth s
      \<Longrightarrow> scan_list (render it @ rest) i s = scan_list rest (i + length (render it)) s"
    and "list_all (item_ok False) its" "\<not> inString s" "\<not> escape s" "0 < depth s"
  shows "scan_list (render_all its @ rest) i s = scan_list rest (i + length (render_all its)) s"
  using assms
proof (induction its arbitrary: i)
  case Nil
  then show ?case by (simp add: render_all_def)
next
  case (Cons it its)
  have "scan_list (render it @ render_all its @ rest) i s
      = scan_list (render_all its @ rest) (i + length (render it)) s"
    using Cons.prems by (intro Cons.prems(1)) simp_all
  also have "\<dots> = scan_list rest (i + length (render it) + length (render_all its)) s"
    using Cons.prems by (intro Cons.IH) simp_all
  finally show ?case by (simp add: render_all_def add.assoc)
qed

lemma scan_inner:
  "item_ok False it \<Longrightarrow> \<not> inString s \<Longrightarrow> \<not> escape s \<Longrightarrow> 0 < depth s
     \<Longrightarrow> scan_list (render it @ rest) i s = scan_list rest (i + length (render it)) s"
proof (induction it arbitrary: rest i s)
  case (Other c)
  then have "scan_step c i s = Some s"
    by (simp add: scan_step_def)
  then show ?case by simp
next
  case (Str b)
  then show ?case by (intro scan_str) simp_all
next
  case (Group its)
  let ?s1 = "s\<lparr>depth := depth s + 1\<rparr>"
  have 1: "scan_step CHR ''{'' i s = Some ?s1"
    using Group.prems by (simp add: scan_step_def quote_def)
  have 2: "scan_list (render_all its @ CHR ''}'' # rest) (i + 1) ?s1
         = scan_list (CHR ''}'' # rest) (i + 1 + length (render_all its)) ?s1"
    using Group.prems by (intro scan_inner_items Group.IH) simp_all
  have 3: "scan_step CHR ''}'' j ?s1 = Some s" for j
    using Group.prems by (simp add: scan_step_def quote_def)
  from 1 2 3 show ?case by (simp add: render_all_def)
qed

lemma scan_top_item:
  assumes "item_ok True it" "\<not> inString s" "\<not> escape s" "depth s = 0" "start s = - 1"
  shows "scan_list (render it @ rest) i s
       = scan_list rest (i + length (render it)) (s\<lparr>ranges := ranges s @ group_ranges i [it]\<rparr>)"
proof (cases it)
  case (Other c)
  with assms have "scan_step c i s = Some s"
    by (simp add: scan_step_def)
  with Other show ?thesis by simp
next
  case (Str b)
  with assms have "scan_list (render (Str b) @ rest) i s = scan_list rest (i + length (render (Str b))) s"
    by (intro scan_str) simp_all
  with Str show ?thesis by simp
next
  case (Group its)
  let ?s1 = "s\<lparr>start := int i, depth := 1\<rparr>"
  let ?n = "length (render_all its)"
  have 1: "scan_step CHR ''{'' i s = Some ?s1"
    using assms by (simp add: scan_step_def quote_def)
  have 2: "scan_list (render_all its @ CHR ''}'' # rest) (i + 1) ?s1
         = scan_list (CHR ''}'' # rest) (i + 1 + ?n) ?s1"
    using assms Group by (intro scan_inner_items scan_inner) simp_all
  have 3: "scan_step CHR ''}'' (i + 1 + ?n) ?s1
         = Some (s\<lparr>ranges := ranges s @ [\<lparr>rstart = int i, rend = int (i + (?n + 2))\<rparr>]\<rparr>)"
    using assms by (simp add: scan_step_def quote_def)
  from 1 2 3 Group show ?thesis by (simp add: render_all_def)
qed

lemma group_ranges_append:
  "group_ranges i (xs @ ys) = group_ranges i xs @ group_ranges (i + length (render_all xs)) ys"
  by (induction xs arbitrary: i) (simp_all add: render_all_def add.assoc)

lemma scan_top_items:
  assumes "list_all (item_ok True) its" "\<not> inString s" "\<not> escape s" "depth s = 0" "start s = - 1"
  shows "scan_list (render_all its @ rest) i s
       = scan_list rest (i + length (render_all its)) (s\<lparr>ranges := ranges s @ group_ranges i its\<rparr>)"
  using assms
proof (induction its arbitrary: i s)
  case Nil
  then show ?case by (simp add: render_all_def)
next
  case (Cons it its)
  let ?s1 = "s\<lparr>ranges := ranges s @ group_ranges i [it]\<rparr>"
  have "scan_list (render it @ render_all its @ rest) i s
      = scan_list (render_all its @ rest) (i + length (render it)) ?s1"
    using Cons.prems by (intro scan_top_item) simp_all
  also have "\<dots> = scan_list rest (i + length (render it) + length (render_all its))
      (?s1\<lparr>ranges := ranges ?s1 @ group_ranges (i + length (render it)) its\<rparr>)"
    using Cons.prems by (intro Cons.IH) simp_all
  finally show ?case by (simp add: render_all_def add.assoc)
qed

lemma scan_list_stop:
  assumes "tail = [] \<or> hd tail = CHR '']''" "\<not> inString s" "depth s = 0"
  shows "scan_list tail i s = ranges s"
proof (cases tail)
  case Nil
  then show ?thesis by simp
next
  case (Cons c cs)
  with assms have "scan_step c i s = None"
    by (simp add: scan_step_def quote_def)
  with Cons show ?thesis by simp
qed

lemma indexOf_aux_cases:
  "(indexOf_aux xs pat k = - 1 \<and> (\<forall>j \<le> length xs. take (length pat) (drop j xs) \<noteq> pat))
   \<or> (\<exists>m \<le> length xs. indexOf_aux xs pat k = int (k + m) \<and> take (length pat) (drop m xs) = pat
          \<and> (\<forall>j < m. take (length pat) (drop j xs) \<noteq> pat))"
proof (induction xs arbitrary: k)
  case Nil
  then show ?case by auto
next
  case (Cons c cs)
  show ?case
  proof (cases "take (length pat) (c # cs) = pat")
    case True
    then have "indexOf_aux (c # cs) pat k = int (k + 0) \<and> take (length pat) (drop 0 (c # cs)) = pat"
      by simp
    then show ?thesis by blast
  next
    case False
    then have eq: "indexOf_aux (c # cs) pat k = indexOf_aux cs pat (k + 1)" by simp
    from Cons.IH[of "k + 1"] show ?thesis
    proof
      assume A: "indexOf_aux cs pat (k + 1) = - 1 \<and> (\<forall>j\<le>length cs. take (length pat) (drop j cs) \<noteq> pat)"
      have "take (length pat) (drop j (c # cs)) \<noteq> pat" if "j \<le> length (c # cs)" for j
      proof (cases j)
        case 0
        with False show ?thesis by simp
      next
        case (Suc j')
        with that A show ?thesis by simp
      qed
      with A eq show ?thesis by simp
    next
      assume "\<exists>m\<le>length cs. indexOf_aux cs pat (k + 1) = int (k + 1 + m) \<and>
          take (length pat) (drop m cs) = pat \<and> (\<forall>j<m. take (length pat) (drop j cs) \<noteq> pat)"
      then obtain m where m: "m \<le> length cs" "indexOf_aux cs pat (k + 1) = int (k + 1 + m)"
          "take (length pat) (drop m cs) = pat" "\<forall>j<m. take (length pat) (drop j cs) \<noteq> pat"
        by blast
      have "take (length pat) (drop j (c # cs)) \<noteq> pat" if "j < Suc m" for j
      proof (cases j)
        case 0
        with False show ?thesis by simp
      next
        case (Suc j')
        with that m(4) show ?thesis by simp
      qed
      with m eq have "Suc m \<le> length (c # cs) \<and> indexOf_aux (c # cs) pat k = int (k + Suc m) \<and>
          take (length pat) (drop (Suc m) (c # cs)) = pat \<and> (\<forall>j<Suc m. take (length pat) (drop j (c # cs)) \<noteq> pat)"
        by simp
      then show ?thesis by blast
    qed
  qed
qed

lemma indexOf_absent:
  assumes "\<forall>j. \<not> occurs_at pat tx j"
  shows "indexOf tx pat pos = - 1"
proof -
  have "take (length pat) (drop j (drop pos tx)) \<noteq> pat" for j
    using assms by (simp add: occurs_at_def)
  with indexOf_aux_cases[of "drop pos tx" pat "min pos (length tx)"]
  show ?thesis by (auto simp: indexOf_def)
qed

lemma indexOf_absent_from:
  assumes "\<forall>j \<ge> pos. \<not> occurs_at pat tx j"
  shows "indexOf tx pat pos = - 1"
proof -
  have "take (length pat) (drop j (drop pos tx)) \<noteq> pat" for j
    using assms by (simp add: occurs_at_def add.commute)
  with indexOf_aux_cases[of "drop pos tx" pat "min pos (length tx)"]
  show ?thesis by (auto simp: indexOf_def)
qed

lemma indexOf_first:
  assumes "occurs_at pat tx k" "\<forall>j < k. \<not> occurs_at pat tx j" "k \<le> length tx"
  shows "indexOf tx pat 0 = int k"
proof -
  from indexOf_aux_cases[of tx pat 0] show ?thesis
  proof
    assume "indexOf_aux tx pat 0 = - 1 \<and> (\<forall>j\<le>length tx. take (length pat) (drop j tx) \<noteq> pat)"
    with assms show ?thesis by (auto simp: occurs_at_def)
  next
    assume "\<exists>m\<le>length tx. indexOf_aux tx pat 0 = int (0 + m) \<and>
          take (length pat) (drop m tx) = pat \<and> (\<forall>j<m. take (length pat) (drop j tx) \<noteq> pat)"
    then obtain m where m: "indexOf_aux tx pat 0 = int m" "take (length pat) (drop m tx) = pat"
      "\<forall>j<m. take (length pat) (drop j tx) \<noteq> pat" by auto
    have "\<not> m < k" using assms(2) m(2) by (auto simp: occurs_at_def)
    moreover have "\<not> k < m" using assms(1) m(3) by (auto simp: occurs_at_def)
    ultimately have "m = k" by simp
    with m show ?thesis by (simp add: indexOf_def)
  qed
qed

lemma indexOf_found:
  assumes "indexOf tx pat pos = int a" "pat \<noteq> []"
  shows "pos \<le> a \<and> a < length tx \<and> occurs_at pat tx a"
proof -
  from indexOf_aux_cases[of "drop pos tx" pat "min pos (length tx)"] assms(1)
  obtain m where m: "m \<le> length (drop pos tx)" "int a = int (min pos (length tx) + m)"
     "take (length pat) (drop m (drop pos tx)) = pat"
    by (auto simp: indexOf_def)
  from m(3) assms(2) have "drop m (drop pos tx) \<noteq> []" by auto
  then have lt: "pos + m < length tx" by simp
  with m(2) have a: "a = pos + m" by simp
  with m(3) lt show ?thesis by (simp add: occurs_at_def add.commute)
qed

lemma computePagesRanges_located:
  assumes "indexOf tx pagesKey 0 = int keyIdx" "indexOf tx ''['' keyIdx = int arrStart"
  shows "computePagesRanges tx = scan_list (drop (arrStart + 1) tx) (arrStart + 1) scan_init"
proof -
  have "arrStart < length tx"
    using indexOf_found[OF assms(2)] by simp
  then have "scan_loop tx (arrStart + 1) scan_init = scan_list (drop (arrStart + 1) tx) (arrStart + 1) scan_init"
    by (intro scan_loop_list) simp
  with assms show ?thesis by (simp add: computePagesRanges_def)
qed

lemma length_group_ranges: "length (group_ranges i its) = length (filter is_group its)"
  by (induction its arbitrary: i) simp_all

lemma scan_items_then_stop:
  assumes "list_all (item_ok True) its" "tail = [] \<or> hd tail = CHR '']''"
  shows "scan_list (render_all its @ tail) i scan_init = group_ranges i its"
proof -
  have "scan_list (render_all its @ tail) i scan_init
      = scan_list tail (i + length (render_all its)) (scan_init\<lparr>ranges := ranges scan_init @ group_ranges i its\<rparr>)"
    using assms(1) by (intro scan_top_items) (simp_all add: scan_init_def)
  also have "\<dots> = ranges (scan_init\<lparr>ranges := ranges scan_init @ group_ranges i its\<rparr>)"
    using assms(2) by (intro scan_list_stop) (simp_all add: scan_init_def)
  finally show ?thesis by (simp add: scan_init_def)
qed

text \<open>
  Claim C1. Let the array be located as the program locates it: \<open>arrStart\<close> is the first
  \<^verbatim>\<open>[\<close> at or after the first occurrence of the key. If the text after it is a sequence
  of well-formed items (balanced braces, closed strings) followed by the end of the text
  or by a \<^verbatim>\<open>]\<close>, which is then the first \<^verbatim>\<open>]\<close> outside strings at depth 0, the scanner
  returns exactly the ranges of the brace groups at depth 1 of that sequence, in order;
  in particular it returns as many ranges as there are such groups.
\<close>

theorem scan_balanced_groups:
  assumes "indexOf tx pagesKey 0 = int keyIdx"
    and "indexOf tx ''['' keyIdx = int arrStart"
    and "drop (arrStart + 1) tx = render_all its @ tail"
    and "list_all (item_ok True) its"
    and "tail = [] \<or> hd tail = CHR '']''"
  shows "computePagesRanges tx = group_ranges (arrStart + 1) its
       \<and> length (computePagesRanges tx) = length (filter is_group its)"
  using computePagesRanges_located[OF assms(1,2)] assms(3) scan_items_then_stop[OF assms(4,5)]
  by (simp add: length_group_ranges)

theorem scan_balanced_groups_witness:
  \<open>indexOf ex_text pagesKey 0 = 9 \<and> indexOf ex_text ''['' 9 = 17
   \<and> drop 18 ex_text = render_all ex_items @ '']}}''
   \<and> list_all (item_ok True) ex_items
   \<and> computePagesRanges ex_text = [\<lparr>rstart = 18, rend = 42\<rparr>, \<lparr>rstart = 43, rend = 53\<rparr>]
   \<and> length (computePagesRanges ex_text) = 2\<close>
  using scan_balanced_groups[of ex_text 9 17 ex_items \<open>'']}}''\<close>]
  by (simp add: ex_text_def ex_items_def render_all_def render_body_def quote_def backslash_def
      indexOf_def pagesKey_def)

subsection \<open>The ranges of every text\<close>

lemma range_ok_mono: "range_ok tx i r \<Longrightarrow> i \<le> j \<Longrightarrow> range_ok tx j r"
  by (simp add: range_ok_def)

lemma scan_inv_init: "scan_inv tx i scan_init"
  by (simp add: scan_inv_def scan_init_def disjoint_in_order_def)

lemma scan_inv_step:
  assumes "scan_inv tx i s" "i < length tx" "scan_step (tx ! i) i s = Some s'"
  shows "scan_inv tx (i + 1) s'"
proof -
  have mono: "\<forall>r \<in> set (ranges s). range_ok tx (i + 1) r"
    using assms(1) by (auto simp: scan_inv_def intro: range_ok_mono)
  have keep: "scan_inv tx (i + 1) t"
    if "ranges t = ranges s" "depth t = depth s" "start t = start s" for t
    using assms(1) mono that by (auto simp: scan_inv_def)
  show ?thesis
  proof (cases "inString s")
    case True
    with assms(3) have "ranges s' = ranges s \<and> depth s' = depth s \<and> start s' = start s"
      by (auto simp: scan_step_def split: if_splits)
    with keep show ?thesis by simp
  next
    case notStr: False
    show ?thesis
    proof (cases "tx ! i = quote")
      case True
      with notStr assms(3) have "s' = s\<lparr>inString := True\<rparr>"
        by (simp add: scan_step_def)
      with keep show ?thesis by simp
    next
      case nq: False
      show ?thesis
      proof (cases "tx ! i = CHR ''{''")
        case True
        with notStr nq assms(3)
        have s': "s' = s\<lparr>start := (if depth s = 0 then int i else start s), depth := depth s + 1\<rparr>"
          by (simp add: scan_step_def)
        show ?thesis
          using assms(1) mono True unfolding s' scan_inv_def
          by (auto simp: range_ok_def)
      next
        case no: False
        show ?thesis
        proof (cases "tx ! i = CHR ''}''")
          case True
          let ?d = "if depth s > 0 then depth s - 1 else depth s"
          show ?thesis
          proof (cases "?d = 0 \<and> start s \<ge> 0")
            case emit: True
            with notStr nq no True assms(3)
            have s': "s' = s\<lparr>depth := ?d,
                      ranges := ranges s @ [\<lparr>rstart = start s, rend = int i + 1\<rparr>],
                      start := - 1\<rparr>"
              by (simp add: scan_step_def Let_def)
            have new: "range_ok tx (i + 1) \<lparr>rstart = start s, rend = int i + 1\<rparr>"
              using assms(1) emit True by (simp add: scan_inv_def range_ok_def)
            have ord: "disjoint_in_order (ranges s @ [\<lparr>rstart = start s, rend = int i + 1\<rparr>])"
              using assms(1) emit by (simp add: scan_inv_def disjoint_in_order_def sorted_wrt_append)
            show ?thesis
              unfolding s' scan_inv_def using mono new ord by auto
          next
            case False
            with notStr nq no True assms(3)
            have s': "s' = s\<lparr>depth := ?d\<rparr>"
              by (simp add: scan_step_def Let_def)
            show ?thesis
              using assms(1) mono False unfolding s' scan_inv_def
              by (auto split: if_splits)
          qed
        next
          case False
          with notStr nq no assms(3) have "s' = s"
            by (simp add: scan_step_def split: if_splits)
          with keep show ?thesis by simp
        qed
      qed
    qed
  qed
qed

lemma scan_loop_inv:
  "scan_inv tx i s \<Longrightarrow> i \<le> length tx \<Longrightarrow>
     (\<forall>r \<in> set (scan_loop tx i s). range_ok tx (length tx) r) \<and> disjoint_in_order (scan_loop tx i s)"
proof (induction tx i s rule: scan_loop.induct)
  case (1 tx i s)
  have here: "(\<forall>r \<in> set (ranges s). range_ok tx (length tx) r) \<and> disjoint_in_order (ranges s)"
    using "1.prems" by (auto simp: scan_inv_def intro: range_ok_mono)
  show ?case
  proof (cases "i < length tx")
    case False
    with here show ?thesis by (subst (1 2) scan_loop.simps) simp
  next
    case True
    show ?thesis
    proof (cases "scan_step (tx ! i) i s")
      case None
      with True here show ?thesis by (subst (1 2) scan_loop.simps) simp
    next
      case (Some s')
      have "scan_inv tx (i + 1) s'"
        using "1.prems"(1) True Some by (rule scan_inv_step)
      with "1.IH"[OF True Some] True
      have "(\<forall>r \<in> set (scan_loop tx (i + 1) s'). range_ok tx (length tx) r)
            \<and> disjoint_in_order (scan_loop tx (i + 1) s')"
        by simp
      moreover have "scan_loop tx i s = scan_loop tx (i + 1) s'"
        using True Some by (subst scan_loop.simps) simp
      ultimately show ?thesis by simp
    qed
  qed
qed

lemma computePagesRanges_inv:
  "(\<forall>r \<in> set (computePagesRanges tx). range_ok tx (length tx) r) \<and> disjoint_in_order (computePagesRanges tx)"
proof (cases "indexOf tx pagesKey 0 < 0 \<or> indexOf tx ''['' (nat (indexOf tx pagesKey 0)) < 0")
  case True
  then show ?thesis by (auto simp: computePagesRanges_def Let_def disjoint_in_order_def)
next
  case False
  then obtain a where a: "indexOf tx ''['' (nat (indexOf tx pagesKey 0)) = int a"
    by (metis linorder_not_less nonneg_int_cases)
  then have "a < length tx" using indexOf_found[OF a] by simp
  then have "(\<forall>r \<in> set (scan_loop tx (a + 1) scan_init). range_ok tx (length tx) r)
      \<and> disjoint_in_order (scan_loop tx (a + 1) scan_init)"
    by (intro scan_loop_inv scan_inv_init) simp
  moreover have "computePagesRanges tx = scan_loop tx (a + 1) scan_init"
    using False a by (simp add: computePagesRanges_def Let_def)
  ultimately show ?thesis by simp
qed

subsection \<open>Strings and escapes\<close>

lemma render_body_plain: "render_body (map Plain body) = body"
  by (induction body) (simp_all add: render_body_def)

lemma render_body_append: "render_body (xs @ ys) = render_body xs @ render_body ys"
  by (simp add: render_body_def)

lemma render_all_append: "render_all (xs @ ys) = render_all xs @ render_all ys"
  by (simp add: render_all_def)

lemma render_body_escapes:
  "render_body (replicate k (Esc backslash)) = replicate (2 * k) backslash"
  by (induction k) (simp_all add: render_body_def)

lemma render_body_run:
  "render_body (replicate k (Esc backslash) @ [Esc c]) = replicate (2 * k + 1) backslash @ [c]"
  by (induction k) (simp_all add: render_body_def)

lemma render_body_escaped_quote:
  "render_body (map Plain body @ replicate k (Esc backslash) @ Esc quote # map Plain body')
     = body @ replicate (2 * k + 1) backslash @ quote # body'"
proof -
  have "render_body (map Plain body @ replicate k (Esc backslash) @ Esc quote # map Plain body')
      = render_body (map Plain body)
        @ (render_body (replicate k (Esc backslash) @ [Esc quote]) @ render_body (map Plain body'))"
    unfolding render_body_def by simp
  then show ?thesis
    by (simp only: render_body_run render_body_plain) simp
qed

lemma plain_ok: "quote \<notin> set body \<Longrightarrow> backslash \<notin> set body \<Longrightarrow> list_all selem_ok (map Plain body)"
  by (induction body) auto

lemma scan_one_record:
  assumes "indexOf tx pagesKey 0 = int keyIdx"
    and "indexOf tx ''['' keyIdx = int arrStart"
    and "drop (arrStart + 1) tx = render (Group its) @ tail"
    and "list_all (item_ok False) its"
    and "tail = [] \<or> hd tail = CHR '']''"
  shows "computePagesRanges tx
       = [\<lparr>rstart = int (arrStart + 1), rend = int (arrStart + 1 + length (render (Group its)))\<rparr>]"
proof -
  have "scan_list (render_all [Group its] @ tail) (arrStart + 1) scan_init
      = group_ranges (arrStart + 1) [Group its]"
    using assms(4,5) by (intro scan_items_then_stop) simp_all
  with computePagesRanges_located[OF assms(1,2)] assms(3) show ?thesis
    by (simp add: render_all_def)
qed

text \<open>
  Claim C3. While the scanner is inside a string, no character, a brace or a bracket
  included, changes the depth, the pending start or the ranges. Hence for a record that
  holds a string whose body is free of quotes and backslashes but otherwise arbitrary
  (braces and brackets included, balanced or not), alone in the array, the scanner
  returns exactly one range, from the record's opening brace to just after its closing
  brace.
\<close>

theorem string_braces_inert:
  "(inString s \<longrightarrow>
      (\<exists>s'. scan_step ch i s = Some s' \<and> depth s' = depth s \<and> start s' = start s
             \<and> ranges s' = ranges s))
   \<and> (indexOf tx pagesKey 0 = int keyIdx \<and> indexOf tx ''['' keyIdx = int arrStart
       \<and> obj = CHR ''{'' # render_all before @ quote # body @ quote # render_all after @ [CHR ''}'']
       \<and> drop (arrStart + 1) tx = obj @ tail
       \<and> list_all (item_ok False) before \<and> list_all (item_ok False) after
       \<and> quote \<notin> set body \<and> backslash \<notin> set body
       \<and> (tail = [] \<or> hd tail = CHR '']'')
      \<longrightarrow> computePagesRanges tx
            = [\<lparr>rstart = int (arrStart + 1), rend = int (arrStart + 1 + length obj)\<rparr>])"
proof (intro conjI impI)
  assume "inString s"
  then show "\<exists>s'. scan_step ch i s = Some s' \<and> depth s' = depth s \<and> start s' = start s
             \<and> ranges s' = ranges s"
    by (simp add: scan_step_def)
next
  assume A: "indexOf tx pagesKey 0 = int keyIdx \<and> indexOf tx ''['' keyIdx = int arrStart
       \<and> obj = CHR ''{'' # render_all before @ quote # body @ quote # render_all after @ [CHR ''}'']
       \<and> drop (arrStart + 1) tx = obj @ tail
       \<and> list_all (item_ok False) before \<and> list_all (item_ok False) after
       \<and> quote \<notin> set body \<and> backslash \<notin> set body
       \<and> (tail = [] \<or> hd tail = CHR '']'')"
  let ?its = "before @ [Str (map Plain body)] @ after"
  have r: "obj = render (Group ?its)"
    using A by (simp add: render_all_def render_body_plain)
  have ok: "list_all (item_ok False) ?its"
    using A by (simp add: plain_ok)
  from A r have d: "drop (arrStart + 1) tx = render (Group ?its) @ tail" by simp
  from A have 1: "indexOf tx pagesKey 0 = int keyIdx" and 2: "indexOf tx ''['' keyIdx = int arrStart"
    and t: "tail = [] \<or> hd tail = CHR '']''" by simp_all
  show "computePagesRanges tx
            = [\<lparr>rstart = int (arrStart + 1), rend = int (arrStart + 1 + length obj)\<rparr>]"
    using scan_one_record[OF 1 2 d ok t] r by simp
qed

theorem string_braces_inert_witness:
  \<open>inString (scan_init\<lparr>inString := True, depth := 1\<rparr>)
   \<and> depth (the (scan_step CHR ''{'' 25 (scan_init\<lparr>inString := True, depth := 1\<rparr>))) = 1
   \<and> indexOf ex_unbalanced pagesKey 0 = 9 \<and> indexOf ex_unbalanced ''['' 9 = 17
   \<and> drop 18 ex_unbalanced = ''{"id":"{unbalanced"}'' @ '']}}''
   \<and> computePagesRanges ex_unbalanced = [\<lparr>rstart = 18, rend = 38\<rparr>]\<close>
  using string_braces_inert[of \<open>scan_init\<lparr>inString := True, depth := 1\<rparr>\<close> \<open>CHR ''{''\<close> 25
      ex_unbalanced 9 17 \<open>''{"id":"{unbalanced"}''\<close> \<open>[Str (map Plain ''id''), Other CHR '':'']\<close>
      \<open>''{unbalanced''\<close> \<open>[]\<close> \<open>'']}}''\<close>]
  by (simp add: ex_unbalanced_def scan_init_def scan_step_def render_all_def render_body_def
      quote_def backslash_def indexOf_def pagesKey_def)

text \<open>
  Claim C4. Inside a string, a quote that follows an odd number of backslashes leaves
  the scanner inside the string: scanning goes on after the quote with the locals
  unchanged. Hence a record holding a string with such a quote, whatever follows the
  quote inside the string (a closing brace included), still yields exactly one range,
  which ends just after the record's own closing brace. The run of backslashes is
  counted from a state that is not escaped; the scanner is in such a state after every
  character other than a backslash.
\<close>

theorem escaped_quote_keeps_string_open:
  "(inString s \<and> \<not> escape s \<and> drop i tx = replicate (2 * k + 1) backslash @ quote # rest
      \<longrightarrow> scan_loop tx i s = scan_loop tx (i + 2 * k + 2) s)
   \<and> (indexOf tx pagesKey 0 = int keyIdx \<and> indexOf tx ''['' keyIdx = int arrStart
       \<and> obj = CHR ''{'' # render_all before @ quote # body
                    @ replicate (2 * k + 1) backslash @ quote # body' @ quote # render_all after
                    @ [CHR ''}'']
       \<and> drop (arrStart + 1) tx = obj @ tail
       \<and> list_all (item_ok False) before \<and> list_all (item_ok False) after
       \<and> quote \<notin> set body \<and> backslash \<notin> set body
       \<and> quote \<notin> set body' \<and> backslash \<notin> set body'
       \<and> (tail = [] \<or> hd tail = CHR '']'')
      \<longrightarrow> computePagesRanges tx
            = [\<lparr>rstart = int (arrStart + 1), rend = int (arrStart + 1 + length obj)\<rparr>])
   \<and> ((escape s0 \<longrightarrow> inString s0) \<and> ch \<noteq> backslash \<and> scan_step ch j s0 = Some s1
      \<longrightarrow> \<not> escape s1)"
proof (intro conjI impI)
  let ?run = "replicate k (Esc backslash) @ [Esc quote]"
  have run: "render_body ?run = replicate (2 * k + 1) backslash @ [quote]"
    by (rule render_body_run)
  {
    assume A: "inString s \<and> \<not> escape s \<and> drop i tx = replicate (2 * k + 1) backslash @ quote # rest"
    then have d: "drop i tx = render_body ?run @ rest" by (simp add: run)
    have len: "length (drop i tx) = 2 * k + 2 + length rest" using A by simp
    then have le: "i + 2 * k + 2 \<le> length tx" by simp
    have "drop (i + 2 * k + 2) tx = drop (2 * k + 2) (drop i tx)" by (simp add: add.commute add.left_commute)
    also have "\<dots> = rest" using A by simp
    finally have d2: "drop (i + 2 * k + 2) tx = rest" .
    have "scan_loop tx i s = scan_list (render_body ?run @ rest) i s"
      using le d by (simp add: scan_loop_list)
    also have "\<dots> = scan_list rest (i + length (render_body ?run)) s"
      using A by (intro scan_body) (simp_all add: list_all_length nth_append)
    also have "\<dots> = scan_list rest (i + 2 * k + 2) s" by (simp add: run)
    also have "\<dots> = scan_loop tx (i + 2 * k + 2) s"
      using le d2 by (simp add: scan_loop_list)
    finally show "scan_loop tx i s = scan_loop tx (i + 2 * k + 2) s" .
  }
  assume A: "indexOf tx pagesKey 0 = int keyIdx \<and> indexOf tx ''['' keyIdx = int arrStart
       \<and> obj = CHR ''{'' # render_all before @ quote # body
                    @ replicate (2 * k + 1) backslash @ quote # body' @ quote # render_all after
                    @ [CHR ''}'']
       \<and> drop (arrStart + 1) tx = obj @ tail
       \<and> list_all (item_ok False) before \<and> list_all (item_ok False) after
       \<and> quote \<notin> set body \<and> backslash \<notin> set body
       \<and> quote \<notin> set body' \<and> backslash \<notin> set body'
       \<and> (tail = [] \<or> hd tail = CHR '']'')"
  let ?b = "map Plain body @ ?run @ map Plain body'"
  let ?its = "before @ [Str ?b] @ after"
  have r: "obj = render (Group ?its)"
    using A by (simp add: render_all_def render_body_escaped_quote)
  have "list_all selem_ok ?b"
    using A by (simp add: plain_ok) (simp add: list_all_length)
  then have ok: "list_all (item_ok False) ?its"
    using A by simp
  from A r have d: "drop (arrStart + 1) tx = render (Group ?its) @ tail" by simp
  from A have 1: "indexOf tx pagesKey 0 = int keyIdx" and 2: "indexOf tx ''['' keyIdx = int arrStart"
    and t: "tail = [] \<or> hd tail = CHR '']''" by simp_all
  show "computePagesRanges tx
            = [\<lparr>rstart = int (arrStart + 1), rend = int (arrStart + 1 + length obj)\<rparr>]"
    using scan_one_record[OF 1 2 d ok t] r by simp
next
  assume "(escape s0 \<longrightarrow> inString s0) \<and> ch \<noteq> backslash \<and> scan_step ch j s0 = Some s1"
  then show "\<not> escape s1"
    by (auto simp: scan_step_def Let_def split: if_splits)
qed

theorem escaped_quote_keeps_string_open_witness:
  \<open>inString (scan_init\<lparr>inString := True, depth := 1, start := 10\<rparr>)
   \<and> \<not> escape (scan_init\<lparr>inString := True, depth := 1, start := 10\<rparr>)
   \<and> drop 17 ex_escaped = replicate (2 * 0 + 1) backslash @ quote # ''}b"}]}''
   \<and> scan_loop ex_escaped 17 (scan_init\<lparr>inString := True, depth := 1, start := 10\<rparr>)
       = scan_loop ex_escaped 19 (scan_init\<lparr>inString := True, depth := 1, start := 10\<rparr>)
   \<and> indexOf ex_escaped pagesKey 0 = 1 \<and> indexOf ex_escaped ''['' 1 = 9
   \<and> computePagesRanges ex_escaped = [\<lparr>rstart = 10, rend = 23\<rparr>]
   \<and> scan_step CHR ''a'' 16 (scan_init\<lparr>inString := True, depth := 1, start := 10\<rparr>)
       = Some (scan_init\<lparr>inString := True, depth := 1, start := 10\<rparr>)\<close>
  using escaped_quote_keeps_string_open[where s = \<open>scan_init\<lparr>inString := True, depth := 1, start := 10\<rparr>\<close>
      and i = 17 and tx = ex_escaped and k = 0 and rest = \<open>''}b"}]}''\<close> and keyIdx = 1 and arrStart = 9
      and obj = \<open>''{"k":"a'' @ [backslash] @ ''"}b"}''\<close>
      and before = \<open>[Str (map Plain ''k''), Other CHR '':'']\<close> and body = \<open>''a''\<close> and body' = \<open>''}b''\<close>
      and after = \<open>[]\<close> and tail = \<open>'']}''\<close>
      and ch = \<open>CHR ''a''\<close> and j = 16
      and ?s0.0 = \<open>scan_init\<lparr>inString := True, depth := 1, start := 10\<rparr>\<close>
      and ?s1.0 = \<open>scan_init\<lparr>inString := True, depth := 1, start := 10\<rparr>\<close>]
  by (simp add: ex_escaped_def scan_init_def scan_step_def render_all_def render_body_def
      quote_def backslash_def indexOf_def pagesKey_def)

subsection \<open>Texts without the array\<close>

lemma indexOf_none_absent:
  assumes "indexOf tx pat 0 = - 1" "pat \<noteq> []"
  shows "\<forall>i. \<not> occurs_at pat tx i"
proof
  fix i
  from indexOf_aux_cases[of tx pat 0] assms(1)
  have no: "\<forall>j \<le> length tx. take (length pat) (drop j tx) \<noteq> pat"
    by (auto simp: indexOf_def)
  show "\<not> occurs_at pat tx i"
  proof (cases "i \<le> length tx")
    case True
    with no show ?thesis by (simp add: occurs_at_def)
  next
    case False
    with assms(2) show ?thesis by (auto simp: occurs_at_def)
  qed
qed

lemma occurs_at_char:
  assumes "occurs_at [c] tx j" "k \<le> j"
  shows "c \<in> set (drop k tx)"
proof -
  from assms(1) have "take 1 (drop j tx) = [c]" by (simp add: occurs_at_def)
  then have "c \<in> set (drop j tx)"
    by (metis in_set_takeD list.set_intros(1))
  with set_drop_subset_set_drop[OF assms(2), of tx] show ?thesis by blast
qed

lemma find_nothing: "findPageIndexAtOffset [] offset = None"
  by (simp add: findPageIndexAtOffset_def find_loop_None)

text \<open>
  Claim C9. If the quoted key does not occur in the text, or no \<^verbatim>\<open>[\<close> occurs from its
  first occurrence on, the scanner returns no range, and the resolver returns \<open>None\<close>
  for every offset.
\<close>

theorem no_array_no_ranges:
  "((\<forall>i. \<not> occurs_at pagesKey tx i)
    \<or> (\<exists>k. occurs_at pagesKey tx k \<and> (\<forall>j < k. \<not> occurs_at pagesKey tx j)
            \<and> CHR ''['' \<notin> set (drop k tx)))
   \<longrightarrow> computePagesRanges tx = []
       \<and> (\<forall>offset. findPageIndexAtOffset (computePagesRanges tx) offset = None)"
proof
  assume "(\<forall>i. \<not> occurs_at pagesKey tx i)
    \<or> (\<exists>k. occurs_at pagesKey tx k \<and> (\<forall>j < k. \<not> occurs_at pagesKey tx j)
            \<and> CHR ''['' \<notin> set (drop k tx))"
  then have "computePagesRanges tx = []"
  proof
    assume "\<forall>i. \<not> occurs_at pagesKey tx i"
    then have "indexOf tx pagesKey 0 = - 1" by (rule indexOf_absent)
    then show ?thesis by (simp add: computePagesRanges_def)
  next
    assume "\<exists>k. occurs_at pagesKey tx k \<and> (\<forall>j < k. \<not> occurs_at pagesKey tx j)
            \<and> CHR ''['' \<notin> set (drop k tx)"
    then obtain k where k: "occurs_at pagesKey tx k" "\<forall>j < k. \<not> occurs_at pagesKey tx j"
        "CHR ''['' \<notin> set (drop k tx)"
      by blast
    from k(1) have "drop k tx \<noteq> []" by (auto simp: occurs_at_def pagesKey_def)
    then have "k \<le> length tx" by simp
    with k have key: "indexOf tx pagesKey 0 = int k" by (intro indexOf_first) simp_all
    have "\<forall>j \<ge> k. \<not> occurs_at ''['' tx j"
      using k(3) occurs_at_char by blast
    then have "indexOf tx ''['' k = - 1" by (rule indexOf_absent_from)
    with key show ?thesis by (simp add: computePagesRanges_def)
  qed
  then show "computePagesRanges tx = []
       \<and> (\<forall>offset. findPageIndexAtOffset (computePagesRanges tx) offset = None)"
    by (simp add: find_nothing)
qed

theorem no_array_no_ranges_witness:
  \<open>(\<forall>i. \<not> occurs_at pagesKey ex_no_key i) \<and> computePagesRanges ex_no_key = []
   \<and> findPageIndexAtOffset (computePagesRanges ex_no_key) 12 = None
   \<and> occurs_at pagesKey ex_no_array 1 \<and> \<not> occurs_at pagesKey ex_no_array 0
   \<and> CHR ''['' \<notin> set (drop 1 ex_no_array)
   \<and> computePagesRanges ex_no_array = []
   \<and> findPageIndexAtOffset (computePagesRanges ex_no_array) 12 = None\<close>
proof -
  have "indexOf ex_no_key pagesKey 0 = - 1"
    by (simp add: ex_no_key_def indexOf_def pagesKey_def)
  then have a: "\<forall>i. \<not> occurs_at pagesKey ex_no_key i"
    by (rule indexOf_none_absent) (simp add: pagesKey_def)
  have b: "occurs_at pagesKey ex_no_array 1 \<and> (\<forall>j < 1. \<not> occurs_at pagesKey ex_no_array j)
      \<and> CHR ''['' \<notin> set (drop 1 ex_no_array)"
    by (simp add: ex_no_array_def occurs_at_def pagesKey_def)
  from a b no_array_no_ranges[of ex_no_key] no_array_no_ranges[of ex_no_array]
  show ?thesis by blast
qed

subsection \<open>Complete records\<close>

lemma slice_snoc:
  assumes "p \<le> i" "i < length tx"
  shows "take (i + 1 - p) (drop p tx) = take (i - p) (drop p tx) @ [tx ! i]"
proof -
  have "i + 1 - p = Suc (i - p)" using assms by simp
  moreover have "i - p < length (drop p tx)" using assms by simp
  moreover have "drop p tx ! (i - p) = tx ! i" using assms by simp
  ultimately show ?thesis by (simp add: take_Suc_conv_app_nth)
qed

lemma slice_length:
  assumes "p \<le> i" "i \<le> length tx"
  shows "length (take (i - p) (drop p tx)) = i - p"
  using assms by simp

lemma push_render:
  "render_all (fst (push x fin levels)) @ open_levels (snd (push x fin levels))
     = render_all fin @ open_levels levels @ render x"
  by (cases levels) (simp_all add: push_def render_all_def)

lemma push_levels_length: "length (snd (push x fin levels)) = length levels"
  by (cases levels) (simp_all add: push_def)

lemma group_ranges_snoc:
  "group_ranges p (fin @ [x])
     = group_ranges p fin
       @ (if is_group x
          then [\<lparr>rstart = int (p + length (render_all fin)),
                 rend = int (p + length (render_all fin) + length (render x))\<rparr>]
          else [])"
  by (simp add: group_ranges_append)

lemma push_ok:
  assumes "list_all top_item_ok fin" "list_all (list_all (item_ok False)) levels"
    and "levels = [] \<Longrightarrow> top_item_ok x" "levels \<noteq> [] \<Longrightarrow> item_ok False x"
  shows "list_all top_item_ok (fst (push x fin levels))
       \<and> list_all (list_all (item_ok False)) (snd (push x fin levels))"
  using assms by (cases levels) (simp_all add: push_def)

lemma push_ranges:
  assumes "\<not> is_group x"
  shows "group_ranges p (fst (push x fin levels)) = group_ranges p fin"
  using assms by (cases levels) (simp_all add: push_def group_ranges_snoc)

lemma push_start:
  assumes "\<not> is_group x"
  shows "(if snd (push x fin levels) = [] then - 1
          else int (p + length (render_all (fst (push x fin levels)))))
       = (if levels = [] then - 1 else int (p + length (render_all fin)))"
  by (cases levels) (simp_all add: push_def)

lemma shape_pushed:
  assumes sh: "shape tx p i s fin levels b"
    and tx': "take (i + 1 - p) (drop p tx) = render_all fin @ open_levels levels @ render x"
    and x: "\<not> is_group x" "levels = [] \<Longrightarrow> top_item_ok x" "levels \<noteq> [] \<Longrightarrow> item_ok False x"
    and s': "\<not> inString s'" "\<not> escape s'" "depth s' = depth s" "ranges s' = ranges s"
      "start s' = start s"
  shows "scan_shape tx p (i + 1) s'"
proof -
  let ?fin = "fst (push x fin levels)" and ?lv = "snd (push x fin levels)"
  have ok: "list_all top_item_ok ?fin \<and> list_all (list_all (item_ok False)) ?lv"
    using sh x(2,3) by (intro push_ok) (simp_all add: shape_def)
  have "shape tx p (i + 1) s' ?fin ?lv []"
    unfolding shape_def
  proof (intro conjI)
    show "take (i + 1 - p) (drop p tx)
        = render_all ?fin @ open_levels ?lv @ open_string (inString s') (escape s') []"
      using tx' s'(1) push_render[of x fin levels] by (simp add: open_string_def)
    show "list_all top_item_ok ?fin" using ok by simp
    show "list_all (list_all (item_ok False)) ?lv" using ok by simp
    show "list_all selem_ok []" by simp
    show "depth s' = length ?lv" using sh s'(3) by (simp add: shape_def push_levels_length)
    show "escape s' \<longrightarrow> inString s'" using s'(2) by simp
    show "ranges s' = group_ranges p ?fin"
      using sh s'(4) x(1) by (simp add: shape_def push_ranges)
    show "start s' = (if ?lv = [] then - 1 else int (p + length (render_all ?fin)))"
      using sh s'(5) push_start[OF x(1), of fin levels p] by (simp add: shape_def)
  qed
  then show ?thesis unfolding scan_shape_def by blast
qed

lemma shape_same_structure:
  assumes sh: "shape tx p i s fin levels b"
    and tx': "take (i + 1 - p) (drop p tx)
        = render_all fin @ open_levels levels @ open_string (inString s') (escape s') b'"
    and b': "list_all selem_ok b'"
    and s': "escape s' \<longrightarrow> inString s'" "depth s' = depth s" "ranges s' = ranges s"
      "start s' = start s"
  shows "scan_shape tx p (i + 1) s'"
proof -
  have "shape tx p (i + 1) s' fin levels b'"
    using sh tx' b' s' by (simp add: shape_def)
  then show ?thesis unfolding scan_shape_def by blast
qed

lemma shape_step:
  assumes sh: "shape tx p i s fin levels b"
    and pi: "p \<le> i" "i < length tx"
    and st: "scan_step (tx ! i) i s = Some s'"
  shows "scan_shape tx p (i + 1) s'"
proof -
  let ?c = "tx ! i"
  have T: "take (i - p) (drop p tx)
      = render_all fin @ open_levels levels @ open_string (inString s) (escape s) b"
    using sh by (simp add: shape_def)
  have T': "take (i + 1 - p) (drop p tx)
      = render_all fin @ open_levels levels @ open_string (inString s) (escape s) b @ [?c]"
    using slice_snoc[OF pi] T by simp
  have len: "i - p = length (render_all fin @ open_levels levels @ open_string (inString s) (escape s) b)"
    using slice_length[of p i tx] pi T by simp
  have bok: "list_all selem_ok b" using sh by (simp add: shape_def)
  have esc: "escape s \<longrightarrow> inString s" using sh by (simp add: shape_def)
  have dep: "depth s = length levels" using sh by (simp add: shape_def)
  have sta: "start s = (if levels = [] then - 1 else int (p + length (render_all fin)))"
    using sh by (simp add: shape_def)
  show ?thesis
  proof (cases "inString s")
    case True
    show ?thesis
    proof (cases "escape s")
      case e: True
      with True st have s': "s' = s\<lparr>escape := False\<rparr>" by (simp add: scan_step_def)
      show ?thesis
      proof (rule shape_same_structure[OF sh, where b' = "b @ [Esc ?c]"])
        show "take (i + 1 - p) (drop p tx) = render_all fin @ open_levels levels
            @ open_string (inString s') (escape s') (b @ [Esc ?c])"
          using T' True e s' by (simp add: open_string_def render_body_append render_body_def)
      qed (use bok s' True in simp_all)
    next
      case ne: False
      show ?thesis
      proof (cases "?c = backslash")
        case bs: True
        with True ne st have s': "s' = s\<lparr>escape := True\<rparr>" by (simp add: scan_step_def)
        show ?thesis
        proof (rule shape_same_structure[OF sh, where b' = b])
          show "take (i + 1 - p) (drop p tx) = render_all fin @ open_levels levels
              @ open_string (inString s') (escape s') b"
            using T' True ne s' bs by (simp add: open_string_def)
        qed (use bok s' True in simp_all)
      next
        case nbs: False
        show ?thesis
        proof (cases "?c = quote")
          case q: True
          with True ne nbs st have s': "s' = s\<lparr>inString := False\<rparr>" by (simp add: scan_step_def)
          show ?thesis
          proof (rule shape_pushed[OF sh, where x = "Str b"])
            show "take (i + 1 - p) (drop p tx) = render_all fin @ open_levels levels @ render (Str b)"
              using T' True ne q by (simp add: open_string_def)
          qed (use bok s' ne in simp_all)
        next
          case nq: False
          with True ne nbs st have s': "s' = s" by (simp add: scan_step_def)
          show ?thesis
          proof (rule shape_same_structure[OF sh, where b' = "b @ [Plain ?c]"])
            show "take (i + 1 - p) (drop p tx) = render_all fin @ open_levels levels
                @ open_string (inString s') (escape s') (b @ [Plain ?c])"
              using T' True ne s' by (simp add: open_string_def render_body_append render_body_def)
          qed (use bok s' True nq nbs in simp_all)
        qed
      qed
    qed
  next
    case False
    with esc have ne: "\<not> escape s" by simp
    have T0: "take (i + 1 - p) (drop p tx) = render_all fin @ open_levels levels @ [?c]"
      using T' False by (simp add: open_string_def)
    have len0: "i - p = length (render_all fin) + length (open_levels levels)"
      using len False by (simp add: open_string_def)
    show ?thesis
    proof (cases "?c = quote")
      case q: True
      with False st have s': "s' = s\<lparr>inString := True\<rparr>" by (simp add: scan_step_def)
      show ?thesis
      proof (rule shape_same_structure[OF sh, where b' = "[]"])
        show "take (i + 1 - p) (drop p tx) = render_all fin @ open_levels levels
            @ open_string (inString s') (escape s') []"
          using T0 s' ne q by (simp add: open_string_def render_body_def)
      qed (use s' in simp_all)
    next
      case nq: False
      show ?thesis
      proof (cases "?c = CHR ''{''")
        case ob: True
        with False nq st
        have s': "s' = s\<lparr>start := (if depth s = 0 then int i else start s), depth := depth s + 1\<rparr>"
          by (simp add: scan_step_def)
        have "shape tx p (i + 1) s' fin ([] # levels) []"
          unfolding shape_def
        proof (intro conjI)
          show "take (i + 1 - p) (drop p tx) = render_all fin @ open_levels ([] # levels)
              @ open_string (inString s') (escape s') []"
            using T0 s' False ob by (simp add: open_string_def render_all_def)
          show "start s' = (if [] # levels = [] then - 1 else int (p + length (render_all fin)))"
          proof (cases "levels = []")
            case True
            with len0 pi have "i = p + length (render_all fin)" by simp
            with True s' dep show ?thesis by simp
          next
            case False
            with s' dep sta show ?thesis by simp
          qed
        qed (use sh s' ne in \<open>simp_all add: shape_def\<close>)
        then show ?thesis unfolding scan_shape_def by blast
      next
        case nob: False
        show ?thesis
        proof (cases "?c = CHR ''}''")
          case cb: True
          show ?thesis
          proof (cases levels)
            case Nil
            with dep sta have "depth s = 0" "start s = - 1" by simp_all
            with False nq nob cb st have s': "s' = s\<lparr>depth := 0\<rparr>"
              by (simp add: scan_step_def)
            show ?thesis
            proof (rule shape_pushed[OF sh, where x = "Other ?c"])
              show "take (i + 1 - p) (drop p tx) = render_all fin @ open_levels levels @ render (Other ?c)"
                using T0 by simp
            qed (use s' False ne cb Nil \<open>depth s = 0\<close> in \<open>simp_all add: quote_def\<close>)
          next
            case (Cons its outer)
            show ?thesis
            proof (cases outer)
              case Nil
              with Cons dep sta have d1: "depth s = 1" "start s = int (p + length (render_all fin))"
                by simp_all
              with False nq nob cb st
              have s': "s' = s\<lparr>depth := 0,
                    ranges := ranges s @ [\<lparr>rstart = start s, rend = int i + 1\<rparr>], start := - 1\<rparr>"
                by (simp add: scan_step_def)
              have i: "i = p + length (render_all fin) + 1 + length (render_all its)"
                using len0 pi Cons Nil by simp
              have "shape tx p (i + 1) s' (fin @ [Group its]) [] []"
                unfolding shape_def
              proof (intro conjI)
                show "take (i + 1 - p) (drop p tx) = render_all (fin @ [Group its]) @ open_levels []
                    @ open_string (inString s') (escape s') []"
                  using T0 s' False cb Cons Nil by (simp add: open_string_def render_all_def)
                show "ranges s' = group_ranges p (fin @ [Group its])"
                  using sh s' d1 i by (simp add: shape_def group_ranges_snoc render_all_def)
                show "list_all top_item_ok (fin @ [Group its])"
                  using sh Cons by (simp add: shape_def)
              qed (use sh s' ne in \<open>simp_all add: shape_def\<close>)
              then show ?thesis unfolding scan_shape_def by blast
            next
              case (Cons its2 outer2)
              with \<open>levels = its # outer\<close> dep have d2: "depth s = Suc (Suc (length outer2))" by simp
              with False nq nob cb st have s': "s' = s\<lparr>depth := depth s - 1\<rparr>"
                by (simp add: scan_step_def)
              have "shape tx p (i + 1) s' fin ((its2 @ [Group its]) # outer2) []"
                unfolding shape_def
              proof (intro conjI)
                show "take (i + 1 - p) (drop p tx) = render_all fin
                    @ open_levels ((its2 @ [Group its]) # outer2)
                    @ open_string (inString s') (escape s') []"
                  using T0 s' False cb Cons \<open>levels = its # outer\<close>
                  by (simp add: open_string_def render_all_def)
                show "list_all (list_all (item_ok False)) ((its2 @ [Group its]) # outer2)"
                  using sh Cons \<open>levels = its # outer\<close> by (simp add: shape_def)
              qed (use sh s' ne d2 Cons \<open>levels = its # outer\<close> in \<open>simp_all add: shape_def\<close>)
              then show ?thesis unfolding scan_shape_def by blast
            qed
          qed
        next
          case ncb: False
          have notstop: "\<not> (?c = CHR '']'' \<and> depth s = 0)"
            using st False nq nob ncb by (auto simp: scan_step_def split: if_splits)
          with False nq nob ncb st have s': "s' = s" by (auto simp: scan_step_def split: if_splits)
          show ?thesis
          proof (rule shape_pushed[OF sh, where x = "Other ?c"])
            show "take (i + 1 - p) (drop p tx) = render_all fin @ open_levels levels @ render (Other ?c)"
              using T0 by simp
            show "levels = [] \<Longrightarrow> top_item_ok (Other ?c)"
              using notstop dep nq nob by simp
            show "levels \<noteq> [] \<Longrightarrow> item_ok False (Other ?c)"
              using nq nob ncb by simp
          qed (use s' False ne in simp_all)
        qed
      qed
    qed
  qed
qed

lemma shape_init: "shape tx p p scan_init [] [] []"
  by (simp add: shape_def scan_init_def open_string_def render_all_def)

lemma scan_loop_shape:
  "scan_shape tx p i s \<Longrightarrow> p \<le> i \<Longrightarrow> i \<le> length tx \<Longrightarrow>
     \<exists>its rest. drop p tx = render_all its @ rest \<and> list_all top_item_ok its
        \<and> (rest = [] \<or> hd rest = CHR '']'' \<or> incomplete rest)
        \<and> scan_loop tx i s = group_ranges p its"
proof (induction tx i s rule: scan_loop.induct)
  case (1 tx i s)
  from "1.prems"(1) obtain fin levels b where sh: "shape tx p i s fin levels b"
    unfolding scan_shape_def by blast
  have T: "take (i - p) (drop p tx)
      = render_all fin @ open_levels levels @ open_string (inString s) (escape s) b"
    using sh by (simp add: shape_def)
  have fin: "list_all top_item_ok fin" and lv: "list_all (list_all (item_ok False)) levels"
    and bok: "list_all selem_ok b" and dep: "depth s = length levels"
    and rs: "ranges s = group_ranges p fin"
    using sh by (simp_all add: shape_def)
  show ?case
  proof (cases "i < length tx")
    case False
    with "1.prems" have "i = length tx" by simp
    then have whole: "drop p tx
        = render_all fin @ open_levels levels @ open_string (inString s) (escape s) b"
      using T by simp
    have res: "scan_loop tx i s = group_ranges p fin"
      using False rs by (subst scan_loop.simps) simp
    let ?rest = "open_levels levels @ open_string (inString s) (escape s) b"
    have "?rest = [] \<or> incomplete ?rest"
    proof (cases "levels \<noteq> [] \<or> inString s")
      case True
      then have "incomplete ?rest"
        unfolding incomplete_def using lv bok by blast
      then show ?thesis by simp
    next
      case False
      then show ?thesis by (simp add: open_string_def)
    qed
    with whole fin res show ?thesis by blast
  next
    case True
    have d: "drop p tx = take (i - p) (drop p tx) @ drop i tx"
    proof -
      have "drop p tx = take (i - p) (drop p tx) @ drop (i - p) (drop p tx)"
        by (rule append_take_drop_id[symmetric])
      also have "drop (i - p) (drop p tx) = drop i tx" using "1.prems"(2) by simp
      finally show ?thesis .
    qed
    have c: "drop i tx = tx ! i # drop (i + 1) tx"
      using True by (simp add: Cons_nth_drop_Suc)
    show ?thesis
    proof (cases "scan_step (tx ! i) i s")
      case None
      then have stop: "\<not> inString s \<and> tx ! i = CHR '']'' \<and> depth s = 0"
        by (auto simp: scan_step_def Let_def split: if_splits)
      with dep have "levels = []" by simp
      with stop T have "take (i - p) (drop p tx) = render_all fin"
        by (simp add: open_string_def)
      with d have "drop p tx = render_all fin @ drop i tx" by simp
      moreover have "hd (drop i tx) = CHR '']''" using c stop by simp
      moreover have "scan_loop tx i s = group_ranges p fin"
        using True None rs by (subst scan_loop.simps) simp
      ultimately show ?thesis using fin by blast
    next
      case (Some s')
      have "scan_shape tx p (i + 1) s'"
        using sh "1.prems"(2) True Some by (rule shape_step)
      with "1.IH"[OF True Some] "1.prems"(2) True
      have "\<exists>its rest. drop p tx = render_all its @ rest \<and> list_all top_item_ok its
        \<and> (rest = [] \<or> hd rest = CHR '']'' \<or> incomplete rest)
        \<and> scan_loop tx (i + 1) s' = group_ranges p its"
        by simp
      moreover have "scan_loop tx i s = scan_loop tx (i + 1) s'"
        using True Some by (subst scan_loop.simps) simp
      ultimately show ?thesis by simp
    qed
  qed
qed

lemma group_ranges_complete:
  "r \<in> set (group_ranges p its) \<Longrightarrow>
     \<exists>pre g post. its = pre @ Group g # post
        \<and> rstart r = int (p + length (render_all pre))
        \<and> rend r = int (p + length (render_all pre) + length (render (Group g)))"
proof (induction its arbitrary: p)
  case Nil
  then show ?case by simp
next
  case (Cons x its)
  show ?case
  proof (cases "is_group x \<and> r = \<lparr>rstart = int p, rend = int (p + length (render x))\<rparr>")
    case True
    then obtain g where "x = Group g" by (cases x) auto
    with True have "x # its = [] @ Group g # its \<and> rstart r = int (p + length (render_all []))
        \<and> rend r = int (p + length (render_all []) + length (render (Group g)))"
      by (simp add: render_all_def)
    then show ?thesis by blast
  next
    case False
    with Cons.prems have "r \<in> set (group_ranges (p + length (render x)) its)"
      by (auto split: if_splits)
    from Cons.IH[OF this] obtain pre g post where
      "its = pre @ Group g # post"
      "rstart r = int (p + length (render x) + length (render_all pre))"
      "rend r = int (p + length (render x) + length (render_all pre) + length (render (Group g)))"
      by blast
    then have "x # its = (x # pre) @ Group g # post
        \<and> rstart r = int (p + length (render_all (x # pre)))
        \<and> rend r = int (p + length (render_all (x # pre)) + length (render (Group g)))"
      by (simp add: render_all_def add.assoc)
    then show ?thesis by blast
  qed
qed

lemma complete_records:
  assumes "indexOf tx pagesKey 0 = int keyIdx" "indexOf tx ''['' keyIdx = int arrStart"
  shows "\<exists>its rest. drop (arrStart + 1) tx = render_all its @ rest \<and> list_all top_item_ok its
        \<and> (rest = [] \<or> hd rest = CHR '']'' \<or> incomplete rest)
        \<and> computePagesRanges tx = group_ranges (arrStart + 1) its"
proof -
  have lt: "arrStart < length tx" using indexOf_found[OF assms(2)] by simp
  have "scan_shape tx (arrStart + 1) (arrStart + 1) scan_init"
    unfolding scan_shape_def using shape_init by blast
  then have "\<exists>its rest. drop (arrStart + 1) tx = render_all its @ rest \<and> list_all top_item_ok its
        \<and> (rest = [] \<or> hd rest = CHR '']'' \<or> incomplete rest)
        \<and> scan_loop tx (arrStart + 1) scan_init = group_ranges (arrStart + 1) its"
    using lt by (intro scan_loop_shape) simp_all
  moreover have "computePagesRanges tx = scan_loop tx (arrStart + 1) scan_init"
    using assms by (simp add: computePagesRanges_def)
  ultimately show ?thesis by simp
qed

lemma located_or_not:
  "computePagesRanges tx = []
   \<or> (\<exists>keyIdx arrStart. indexOf tx pagesKey 0 = int keyIdx \<and> indexOf tx ''['' keyIdx = int arrStart)"
proof (cases "indexOf tx pagesKey 0 < 0 \<or> indexOf tx ''['' (nat (indexOf tx pagesKey 0)) < 0")
  case True
  then show ?thesis by (auto simp: computePagesRanges_def Let_def)
next
  case False
  then obtain k where k: "indexOf tx pagesKey 0 = int k"
    by (metis linorder_not_less nonneg_int_cases)
  with False obtain a where "indexOf tx ''['' k = int a"
    by (metis linorder_not_less nat_int nonneg_int_cases)
  with k show ?thesis by blast
qed

lemma ranges_are_records:
  assumes "r \<in> set (computePagesRanges tx)"
  shows "\<exists>its. list_all (item_ok False) its
       \<and> take (nat (rend r - rstart r)) (drop (nat (rstart r)) tx) = render (Group its)"
proof -
  from located_or_not[of tx] assms obtain keyIdx arrStart where
    loc: "indexOf tx pagesKey 0 = int keyIdx" "indexOf tx ''['' keyIdx = int arrStart"
    by auto
  let ?p = "arrStart + 1"
  from complete_records[OF loc] obtain its rest where
    d: "drop ?p tx = render_all its @ rest" and ok: "list_all top_item_ok its"
    and res: "computePagesRanges tx = group_ranges ?p its"
    by blast
  from assms res have "r \<in> set (group_ranges ?p its)" by simp
  from group_ranges_complete[OF this] obtain pre g post where
    its: "its = pre @ Group g # post"
    and rs: "rstart r = int (?p + length (render_all pre))"
    and re: "rend r = int (?p + length (render_all pre) + length (render (Group g)))"
    by blast
  from ok its have g: "list_all (item_ok False) g" by simp
  have "drop (?p + length (render_all pre)) tx = drop (length (render_all pre)) (drop ?p tx)"
    by (simp add: add.commute)
  also have "\<dots> = render (Group g) @ render_all post @ rest"
    using d its by (simp add: render_all_def)
  finally have "take (length (render (Group g))) (drop (?p + length (render_all pre)) tx)
      = render (Group g)"
    by simp
  moreover have "nat (rend r - rstart r) = length (render (Group g))" using rs re by simp
  moreover have "nat (rstart r) = ?p + length (render_all pre)" using rs by simp
  ultimately show ?thesis using g by auto
qed

text \<open>
  Claim C2. For every text, every range the scanner returns has \<open>start < end\<close>, lies
  within the text, starts at an opening brace and ends just after a closing brace; the
  ranges come from left to right and each ends before the next one starts. The text of
  every range is a complete record: a brace group whose braces outside strings are
  balanced and whose strings are closed, so that the brace that ends the range is the one
  matching the brace that starts it. When the array is located, the text after its
  \<^verbatim>\<open>[\<close> consists of complete items followed by a remainder that is empty, starts with
  the \<^verbatim>\<open>]\<close> that ends the array, or is an item that stops inside an open group or an open
  string; the ranges are exactly those of the brace groups among the complete items, in
  their order, so neither an unfinished record is returned nor a finished one left out.
\<close>

theorem ranges_well_formed:
  "(\<forall>r \<in> set (computePagesRanges tx).
       0 \<le> rstart r \<and> rstart r < rend r \<and> rend r \<le> int (length tx)
       \<and> tx ! nat (rstart r) = CHR ''{'' \<and> tx ! nat (rend r - 1) = CHR ''}'')
   \<and> (\<forall>i j. i < j \<and> j < length (computePagesRanges tx) \<longrightarrow>
         rend (computePagesRanges tx ! i) \<le> rstart (computePagesRanges tx ! j))
   \<and> (\<forall>r \<in> set (computePagesRanges tx).
         \<exists>its. list_all (item_ok False) its
           \<and> take (nat (rend r - rstart r)) (drop (nat (rstart r)) tx) = render (Group its))
   \<and> (indexOf tx pagesKey 0 = int keyIdx \<and> indexOf tx ''['' keyIdx = int arrStart \<longrightarrow>
        (\<exists>its rest. drop (arrStart + 1) tx = render_all its @ rest
           \<and> list_all top_item_ok its
           \<and> (rest = [] \<or> hd rest = CHR '']'' \<or> incomplete rest)
           \<and> computePagesRanges tx = group_ranges (arrStart + 1) its))"
proof (intro conjI)
  show "\<forall>r \<in> set (computePagesRanges tx).
       0 \<le> rstart r \<and> rstart r < rend r \<and> rend r \<le> int (length tx)
       \<and> tx ! nat (rstart r) = CHR ''{'' \<and> tx ! nat (rend r - 1) = CHR ''}''"
    using computePagesRanges_inv[of tx] by (simp add: range_ok_def)
  show "\<forall>i j. i < j \<and> j < length (computePagesRanges tx) \<longrightarrow>
         rend (computePagesRanges tx ! i) \<le> rstart (computePagesRanges tx ! j)"
    using computePagesRanges_inv[of tx]
    by (simp add: disjoint_in_order_def sorted_wrt_iff_nth_less)
  show "\<forall>r \<in> set (computePagesRanges tx).
         \<exists>its. list_all (item_ok False) its
           \<and> take (nat (rend r - rstart r)) (drop (nat (rstart r)) tx) = render (Group its)"
    using ranges_are_records by blast
  show "indexOf tx pagesKey 0 = int keyIdx \<and> indexOf tx ''['' keyIdx = int arrStart \<longrightarrow>
        (\<exists>its rest. drop (arrStart + 1) tx = render_all its @ rest
           \<and> list_all top_item_ok its
           \<and> (rest = [] \<or> hd rest = CHR '']'' \<or> incomplete rest)
           \<and> computePagesRanges tx = group_ranges (arrStart + 1) its)"
    using complete_records by blast
qed

theorem ranges_well_formed_witness:
  \<open>indexOf ex_truncated pagesKey 0 = 1 \<and> indexOf ex_truncated ''['' 1 = 9
   \<and> computePagesRanges ex_truncated = [\<lparr>rstart = 10, rend = 17\<rparr>, \<lparr>rstart = 18, rend = 26\<rparr>]
   \<and> rstart (computePagesRanges ex_truncated ! 1) < rend (computePagesRanges ex_truncated ! 1)
   \<and> rend (computePagesRanges ex_truncated ! 1) \<le> int (length ex_truncated)
   \<and> ex_truncated ! nat (rstart (computePagesRanges ex_truncated ! 1)) = CHR ''{''
   \<and> ex_truncated ! nat (rend (computePagesRanges ex_truncated ! 1) - 1) = CHR ''}''
   \<and> rend (computePagesRanges ex_truncated ! 0) \<le> rstart (computePagesRanges ex_truncated ! 1)
   \<and> take 8 (drop 18 ex_truncated)
       = render (Group [Str [Plain CHR ''b''], Other CHR '':'', Group []])
   \<and> drop 10 ex_truncated
       = render_all [Group [Str [Plain CHR ''a''], Other CHR '':'', Other CHR ''1''], Other CHR '','',
                     Group [Str [Plain CHR ''b''], Other CHR '':'', Group []], Other CHR '','']
         @ open_levels [[Str [Plain CHR ''c''], Other CHR '':'']]
   \<and> indexOf ex_open_string pagesKey 0 = 1 \<and> indexOf ex_open_string ''['' 1 = 9
   \<and> computePagesRanges ex_open_string = []
   \<and> drop 10 ex_open_string
       = open_levels [[Str [Plain CHR ''a''], Other CHR '':'']] @ open_string True False [Plain CHR ''}'']\<close>
proof -
  have v: \<open>computePagesRanges ex_truncated = [\<lparr>rstart = 10, rend = 17\<rparr>, \<lparr>rstart = 18, rend = 26\<rparr>]\<close>
    by code_simp
  then have m: "computePagesRanges ex_truncated ! 1 \<in> set (computePagesRanges ex_truncated)"
    by simp
  have w: \<open>computePagesRanges ex_open_string = []\<close> by code_simp
  have loc: \<open>indexOf ex_truncated pagesKey 0 = 1 \<and> indexOf ex_truncated ''['' 1 = 9
      \<and> indexOf ex_open_string pagesKey 0 = 1 \<and> indexOf ex_open_string ''['' 1 = 9\<close>
    by (simp add: ex_truncated_def ex_open_string_def indexOf_def pagesKey_def)
  have shown: \<open>take 8 (drop 18 ex_truncated)
       = render (Group [Str [Plain CHR ''b''], Other CHR '':'', Group []])
   \<and> drop 10 ex_truncated
       = render_all [Group [Str [Plain CHR ''a''], Other CHR '':'', Other CHR ''1''], Other CHR '','',
                     Group [Str [Plain CHR ''b''], Other CHR '':'', Group []], Other CHR '','']
         @ open_levels [[Str [Plain CHR ''c''], Other CHR '':'']]
   \<and> drop 10 ex_open_string
       = open_levels [[Str [Plain CHR ''a''], Other CHR '':'']] @ open_string True False [Plain CHR ''}'']\<close>
    by (simp add: ex_truncated_def ex_open_string_def render_all_def render_body_def open_string_def
        quote_def)
  from ranges_well_formed[of ex_truncated 1 9] have
    "\<forall>r \<in> set (computePagesRanges ex_truncated).
       0 \<le> rstart r \<and> rstart r < rend r \<and> rend r \<le> int (length ex_truncated)
       \<and> ex_truncated ! nat (rstart r) = CHR ''{'' \<and> ex_truncated ! nat (rend r - 1) = CHR ''}''"
    and "0 < (1::nat) \<and> 1 < length (computePagesRanges ex_truncated) \<longrightarrow>
         rend (computePagesRanges ex_truncated ! 0) \<le> rstart (computePagesRanges ex_truncated ! 1)"
    by blast+
  with v m w loc shown ranges_well_formed[of ex_open_string 1 9] show ?thesis by simp
qed

section \<open>Properties of the timers\<close>

subsection \<open>The timer table\<close>

lemma timers_invI:
  assumes "\<And>t. t \<in> set (timers st) \<Longrightarrow> handle t < nextHandle st"
    and "distinct (map handle (timers st))"
    and "\<And>h. debounceRef st = Some h \<Longrightarrow> h < nextHandle st"
    and "\<And>h. cursorDebounceRef st = Some h \<Longrightarrow> h < nextHandle st"
    and "\<And>h. debounceRef st = Some h \<Longrightarrow> cursorDebounceRef st \<noteq> Some h"
    and "\<And>t. t \<in> set (timers st) \<Longrightarrow> is_parse (callback t) \<Longrightarrow> debounceRef st = Some (handle t)"
    and "\<And>t. t \<in> set (timers st) \<Longrightarrow> \<not> is_parse (callback t) \<Longrightarrow>
            cursorDebounceRef st = Some (handle t)"
  shows "timers_inv st"
  unfolding timers_inv_def using assms by blast

lemma timers_inv_init: "timers_inv init"
  by (simp add: timers_inv_def init_def)

lemma timers_inv_frame:
  assumes "timers_inv st" "timers st' = timers st" "nextHandle st' = nextHandle st"
    "debounceRef st' = debounceRef st" "cursorDebounceRef st' = cursorDebounceRef st"
  shows "timers_inv st'"
  using assms by (simp add: timers_inv_def)

lemma timers_inv_cancel:
  assumes "timers_inv st"
  shows "timers_inv (st\<lparr>timers := filter (\<lambda>t. handle t \<noteq> h) (timers st)\<rparr>)"
  using assms by (simp add: timers_inv_def distinct_map_filter)

lemma set_cleared: "set (cleared ref ts) \<subseteq> set ts"
  by (auto simp: cleared_def split: option.splits)

lemma distinct_cleared: "distinct (map handle ts) \<Longrightarrow> distinct (map handle (cleared ref ts))"
  by (simp add: cleared_def distinct_map_filter split: option.splits)

lemma cleared_no_handle: "t \<in> set (cleared (Some h) ts) \<Longrightarrow> handle t \<noteq> h"
  by (simp add: cleared_def)

lemma scheduleParse_eq:
  "scheduleParse nextText st =
     st\<lparr>timers := cleared (debounceRef st) (timers st)
                    @ [\<lparr>handle = nextHandle st, delay = 450, callback = ParseCallback nextText\<rparr>],
        nextHandle := nextHandle st + 1,
        debounceRef := Some (nextHandle st)\<rparr>"
  by (simp add: scheduleParse_def clearTimeout_def setTimeout_def cleared_def split: option.splits)

lemma scheduleCursorSync_eq:
  "scheduleCursorSync config nextText st =
     (if followCursorRef st \<and> monacoEditorRef st \<noteq> None then
        st\<lparr>timers := cleared (cursorDebounceRef st) (timers st)
                       @ [\<lparr>handle = nextHandle st, delay = 120,
                            callback = CursorSyncCallback nextText config\<rparr>],
           nextHandle := nextHandle st + 1,
           cursorDebounceRef := Some (nextHandle st)\<rparr>
      else st)"
  by (auto simp: scheduleCursorSync_def clearTimeout_def setTimeout_def cleared_def
      split: option.splits)

lemma cleared_parse_none:
  assumes "timers_inv st" "t \<in> set (cleared (debounceRef st) (timers st))"
  shows "\<not> is_parse (callback t)"
proof
  assume p: "is_parse (callback t)"
  from assms(2) set_cleared have m: "t \<in> set (timers st)" by blast
  with assms(1) p have r: "debounceRef st = Some (handle t)"
    by (auto simp: timers_inv_def)
  with assms(2) cleared_no_handle[of t "handle t" "timers st"] show False by simp
qed

lemma cleared_cursor_none:
  assumes "timers_inv st" "t \<in> set (cleared (cursorDebounceRef st) (timers st))"
  shows "is_parse (callback t)"
proof (rule ccontr)
  assume p: "\<not> is_parse (callback t)"
  from assms(2) set_cleared have m: "t \<in> set (timers st)" by blast
  with assms(1) p have r: "cursorDebounceRef st = Some (handle t)"
    by (auto simp: timers_inv_def)
  with assms(2) cleared_no_handle[of t "handle t" "timers st"] show False by simp
qed

lemma inv_member:
  assumes "timers_inv st" "t \<in> set (timers st)"
  shows "handle t < nextHandle st"
    and "is_parse (callback t) \<Longrightarrow> debounceRef st = Some (handle t)"
    and "\<not> is_parse (callback t) \<Longrightarrow> cursorDebounceRef st = Some (handle t)"
  using assms by (auto simp: timers_inv_def)

lemma timers_inv_scheduleParse:
  assumes "timers_inv st"
  shows "timers_inv (scheduleParse nextText st)"
proof -
  let ?ts = "cleared (debounceRef st) (timers st)"
  let ?n = "nextHandle st"
  let ?new = "\<lparr>handle = ?n, delay = 450, callback = ParseCallback nextText\<rparr>"
  let ?st' = "st\<lparr>timers := ?ts @ [?new], nextHandle := ?n + 1, debounceRef := Some ?n\<rparr>"
  have sub: "\<And>t. t \<in> set ?ts \<Longrightarrow> t \<in> set (timers st)" using set_cleared by blast
  have lt: "\<And>t. t \<in> set ?ts \<Longrightarrow> handle t < ?n"
    using sub inv_member(1)[OF assms] by blast
  have d: "distinct (map handle ?ts)"
    using assms by (intro distinct_cleared) (simp add: timers_inv_def)
  have fresh: "?n \<notin> handle ` set ?ts" using lt by fastforce
  have cur: "\<And>t. t \<in> set ?ts \<Longrightarrow> \<not> is_parse (callback t)"
    using cleared_parse_none[OF assms] by blast
  have cur2: "\<And>t. t \<in> set ?ts \<Longrightarrow> cursorDebounceRef st = Some (handle t)"
    using cur sub inv_member(3)[OF assms] by blast
  have refs: "\<And>h. cursorDebounceRef st = Some h \<Longrightarrow> h < ?n"
    using assms by (simp add: timers_inv_def)
  have "timers_inv ?st'"
  proof (rule timers_invI)
    fix t assume "t \<in> set (timers ?st')"
    then have "t \<in> set ?ts \<or> t = ?new" by auto
    then show "handle t < nextHandle ?st'" using lt by (auto simp: less_Suc_eq)
  next
    show "distinct (map handle (timers ?st'))" using d fresh by simp
  next
    fix h assume "debounceRef ?st' = Some h"
    then show "h < nextHandle ?st'" by simp
  next
    fix h assume "cursorDebounceRef ?st' = Some h"
    then show "h < nextHandle ?st'" using refs[of h] by simp
  next
    fix h assume "debounceRef ?st' = Some h"
    then have "h = ?n" by simp
    then show "cursorDebounceRef ?st' \<noteq> Some h" using refs[of h] by auto
  next
    fix t assume "t \<in> set (timers ?st')" "is_parse (callback t)"
    then have "t = ?new" using cur by auto
    then show "debounceRef ?st' = Some (handle t)" by simp
  next
    fix t assume "t \<in> set (timers ?st')" "\<not> is_parse (callback t)"
    then have "t \<in> set ?ts" by auto
    then show "cursorDebounceRef ?st' = Some (handle t)" using cur2 by simp
  qed
  then show ?thesis by (simp only: scheduleParse_eq)
qed

lemma timers_inv_scheduleCursorSync:
  assumes "timers_inv st"
  shows "timers_inv (scheduleCursorSync config nextText st)"
proof (cases "followCursorRef st \<and> monacoEditorRef st \<noteq> None")
  case False
  then have "scheduleCursorSync config nextText st = st"
    by (subst scheduleCursorSync_eq) (simp only: if_False)
  with assms show ?thesis by simp
next
  case True
  let ?ts = "cleared (cursorDebounceRef st) (timers st)"
  let ?n = "nextHandle st"
  let ?new = "\<lparr>handle = ?n, delay = 120, callback = CursorSyncCallback nextText config\<rparr>"
  let ?st' = "st\<lparr>timers := ?ts @ [?new], nextHandle := ?n + 1, cursorDebounceRef := Some ?n\<rparr>"
  have sub: "\<And>t. t \<in> set ?ts \<Longrightarrow> t \<in> set (timers st)" using set_cleared by blast
  have lt: "\<And>t. t \<in> set ?ts \<Longrightarrow> handle t < ?n"
    using sub inv_member(1)[OF assms] by blast
  have d: "distinct (map handle ?ts)"
    using assms by (intro distinct_cleared) (simp add: timers_inv_def)
  have fresh: "?n \<notin> handle ` set ?ts" using lt by fastforce
  have par: "\<And>t. t \<in> set ?ts \<Longrightarrow> is_parse (callback t)"
    using cleared_cursor_none[OF assms] by blast
  have par2: "\<And>t. t \<in> set ?ts \<Longrightarrow> debounceRef st = Some (handle t)"
    using par sub inv_member(2)[OF assms] by blast
  have refs: "\<And>h. debounceRef st = Some h \<Longrightarrow> h < ?n"
    using assms by (simp add: timers_inv_def)
  have "timers_inv ?st'"
  proof (rule timers_invI)
    fix t assume "t \<in> set (timers ?st')"
    then have "t \<in> set ?ts \<or> t = ?new" by auto
    then show "handle t < nextHandle ?st'" using lt by (auto simp: less_Suc_eq)
  next
    show "distinct (map handle (timers ?st'))" using d fresh by simp
  next
    fix h assume "debounceRef ?st' = Some h"
    then show "h < nextHandle ?st'" using refs[of h] by simp
  next
    fix h assume "cursorDebounceRef ?st' = Some h"
    then show "h < nextHandle ?st'" by simp
  next
    fix h assume "debounceRef ?st' = Some h"
    then have "h < ?n" using refs[of h] by simp
    then show "cursorDebounceRef ?st' \<noteq> Some h" by simp
  next
    fix t assume "t \<in> set (timers ?st')" "is_parse (callback t)"
    then have "t \<in> set ?ts" by auto
    then show "debounceRef ?st' = Some (handle t)" using par2 by simp
  next
    fix t assume "t \<in> set (timers ?st')" "\<not> is_parse (callback t)"
    then have "t = ?new" using par by auto
    then show "cursorDebounceRef ?st' = Some (handle t)" by simp
  qed
  moreover have "scheduleCursorSync config nextText st = ?st'"
    using True by (subst scheduleCursorSync_eq) simp
  ultimately show ?thesis by simp
qed

lemma setParsedConfig_frame:
  "timers (setParsedConfig config st) = timers st \<and> nextHandle (setParsedConfig config st) = nextHandle st
   \<and> debounceRef (setParsedConfig config st) = debounceRef st
   \<and> cursorDebounceRef (setParsedConfig config st) = cursorDebounceRef st"
  by (simp add: setParsedConfig_def Let_def split: option.splits)

lemma runCallback_frame:
  "timers (runCallback parse cb st) = timers st \<and> nextHandle (runCallback parse cb st) = nextHandle st
   \<and> debounceRef (runCallback parse cb st) = debounceRef st
   \<and> cursorDebounceRef (runCallback parse cb st) = cursorDebounceRef st"
  by (simp add: runCallback_def setParsedConfig_frame Let_def split: callback.splits option.splits)

lemma navigate_frame:
  "timers (navigate d st) = timers st \<and> nextHandle (navigate d st) = nextHandle st
   \<and> debounceRef (navigate d st) = debounceRef st
   \<and> cursorDebounceRef (navigate d st) = cursorDebounceRef st"
  by (simp add: navigate_def split: option.splits)

lemma setEditorValue_frame:
  "timers (setEditorValue val st) = timers st \<and> nextHandle (setEditorValue val st) = nextHandle st
   \<and> debounceRef (setEditorValue val st) = debounceRef st
   \<and> cursorDebounceRef (setEditorValue val st) = cursorDebounceRef st"
  by (simp add: setEditorValue_def)

lemma timers_inv_eq:
  "timers st' = timers st \<and> nextHandle st' = nextHandle st \<and> debounceRef st' = debounceRef st
     \<and> cursorDebounceRef st' = cursorDebounceRef st
   \<Longrightarrow> timers_inv st' = timers_inv st"
  by (simp add: timers_inv_def)

lemma inv_setEditorValue: "timers_inv (setEditorValue val st) = timers_inv st"
  by (rule timers_inv_eq[OF setEditorValue_frame])

lemma inv_setParsedConfig: "timers_inv (setParsedConfig config st) = timers_inv st"
  by (rule timers_inv_eq[OF setParsedConfig_frame])

lemma inv_runCallback: "timers_inv (runCallback parse cb st) = timers_inv st"
  by (rule timers_inv_eq[OF runCallback_frame])

lemma inv_navigate: "timers_inv (navigate d st) = timers_inv st"
  by (rule timers_inv_eq[OF navigate_frame])

lemma timers_inv_step:
  assumes "timers_inv st"
  shows "timers_inv (step parse e st)"
proof (cases e)
  case (ConfigLoaded val)
  with assms show ?thesis by (simp add: inv_setParsedConfig inv_setEditorValue)
next
  case (ConfigSaved val)
  with assms show ?thesis by (simp add: inv_setEditorValue)
next
  case EditorMounted
  show ?thesis
  proof (cases "monacoEditorRef st")
    case None
    have "timers_inv (st\<lparr>monacoEditorRef := Some \<lparr>edValue = editorText st, edOffset = Some 0\<rparr>\<rparr>)
        = timers_inv st"
      by (rule timers_inv_eq) simp
    with EditorMounted None assms show ?thesis by simp
  next
    case (Some ed)
    with EditorMounted assms show ?thesis by simp
  qed
next
  case (TextChanged val)
  have "timers_inv (setEditorValue val st)"
    using assms by (simp add: inv_setEditorValue)
  then have "timers_inv (scheduleParse val (setEditorValue val st))"
    by (rule timers_inv_scheduleParse)
  then have "timers_inv (scheduleCursorSync (parsedConfig st) val (scheduleParse val (setEditorValue val st)))"
    by (rule timers_inv_scheduleCursorSync)
  with TextChanged show ?thesis by simp
next
  case (CursorMoved off)
  show ?thesis
  proof (cases "monacoEditorRef st")
    case None
    with CursorMoved assms show ?thesis by simp
  next
    case (Some ed)
    have "timers_inv (st\<lparr>monacoEditorRef := Some (ed\<lparr>edOffset := Some off\<rparr>)\<rparr>) = timers_inv st"
      by (rule timers_inv_eq) simp
    with assms have "timers_inv (st\<lparr>monacoEditorRef := Some (ed\<lparr>edOffset := Some off\<rparr>)\<rparr>)"
      by simp
    then have "timers_inv (scheduleCursorSync listenerConfig (edValue ed)
        (st\<lparr>monacoEditorRef := Some (ed\<lparr>edOffset := Some off\<rparr>)\<rparr>))"
      by (rule timers_inv_scheduleCursorSync)
    with CursorMoved Some show ?thesis by simp
  qed
next
  case (TimerFires h)
  show ?thesis
  proof (cases "find (\<lambda>t. handle t = h) (timers st)")
    case None
    with TimerFires assms show ?thesis by simp
  next
    case (Some t)
    have "timers_inv (st\<lparr>timers := filter (\<lambda>t. handle t \<noteq> h) (timers st)\<rparr>)"
      using assms by (rule timers_inv_cancel)
    with TimerFires Some show ?thesis by (simp add: inv_runCallback)
  qed
next
  case GoPrev
  with assms show ?thesis by (simp add: inv_navigate)
next
  case GoNext
  with assms show ?thesis by (simp add: inv_navigate)
next
  case (SetFollowCursor b)
  show ?thesis
  proof (cases "parsedConfig st = None \<or> b = followCursor st")
    case True
    then have "setFollowCursor b st = st" unfolding setFollowCursor_def by (simp only: if_True)
    with SetFollowCursor assms show ?thesis by simp
  next
    case False
    let ?st1 = "st\<lparr>followCursor := b, followCursorRef := b\<rparr>"
    have "timers_inv ?st1 = timers_inv st" by (rule timers_inv_eq) simp
    with assms have 1: "timers_inv ?st1" by simp
    show ?thesis
    proof (cases "monacoEditorRef st")
      case None
      with False have "setFollowCursor b st = ?st1" by (auto simp: setFollowCursor_def)
      with SetFollowCursor 1 show ?thesis by simp
    next
      case (Some ed)
      have "timers_inv (scheduleCursorSync (parsedConfig ?st1) (edValue ed) ?st1)"
        using 1 by (rule timers_inv_scheduleCursorSync)
      moreover from False Some
      have "setFollowCursor b st = scheduleCursorSync (parsedConfig ?st1) (edValue ed) ?st1"
        by (auto simp: setFollowCursor_def)
      ultimately show ?thesis using SetFollowCursor by simp
    qed
  qed
qed

lemma timers_inv_fold:
  "timers_inv st \<Longrightarrow> timers_inv (fold (step parse) evs st)"
  by (induction evs arbitrary: st) (simp_all add: timers_inv_step)

lemma timers_inv_run: "timers_inv (run parse evs init)"
  unfolding run_def by (rule timers_inv_fold) (rule timers_inv_init)

lemma run_append: "run parse (evs @ evs') st = run parse evs' (run parse evs st)"
  by (simp add: run_def)

lemma run_single: "run parse [e] st = step parse e st"
  by (simp add: run_def)

lemma same_key_at_most_one:
  "distinct (map f xs) \<Longrightarrow> \<forall>x \<in> set xs. P x \<longrightarrow> f x = k \<Longrightarrow> length (filter P xs) \<le> 1"
proof (induction xs)
  case Nil
  then show ?case by simp
next
  case (Cons x xs)
  show ?case
  proof (cases "P x")
    case False
    with Cons show ?thesis by simp
  next
    case True
    with Cons.prems have "f x = k" by simp
    have "\<not> P y" if "y \<in> set xs" for y
    proof
      assume "P y"
      with that Cons.prems(2) have "f y = k" by simp
      with \<open>f x = k\<close> that Cons.prems(1) show False by (auto simp: image_iff)
    qed
    then have "filter P xs = []" by (simp add: filter_empty_conv)
    with True show ?thesis by simp
  qed
qed

lemma at_most_one_parse:
  assumes "timers_inv st"
  shows "length (pending_parse st) \<le> 1"
proof (cases "debounceRef st")
  case None
  with assms have "\<forall>t \<in> set (timers st). \<not> is_parse (callback t)"
    by (auto simp: timers_inv_def)
  then show ?thesis by (simp add: pending_parse_def filter_empty_conv)
next
  case (Some h)
  with assms have "\<forall>t \<in> set (timers st). is_parse (callback t) \<longrightarrow> handle t = h"
    by (auto simp: timers_inv_def)
  moreover from assms have "distinct (map handle (timers st))" by (simp add: timers_inv_def)
  ultimately show ?thesis unfolding pending_parse_def by (intro same_key_at_most_one) 
qed

lemma at_most_one_cursor:
  assumes "timers_inv st"
  shows "length (pending_cursor st) \<le> 1"
proof (cases "cursorDebounceRef st")
  case None
  with assms have "\<forall>t \<in> set (timers st). is_parse (callback t)"
    by (auto simp: timers_inv_def)
  then show ?thesis by (simp add: pending_cursor_def filter_empty_conv)
next
  case (Some h)
  with assms have "\<forall>t \<in> set (timers st). \<not> is_parse (callback t) \<longrightarrow> handle t = h"
    by (auto simp: timers_inv_def)
  moreover from assms have "distinct (map handle (timers st))" by (simp add: timers_inv_def)
  ultimately show ?thesis unfolding pending_cursor_def by (intro same_key_at_most_one) 
qed

subsection \<open>Debouncing\<close>

lemma pending_parse_scheduleParse:
  assumes "timers_inv st"
  shows "pending_parse (scheduleParse val st)
       = [\<lparr>handle = nextHandle st, delay = 450, callback = ParseCallback val\<rparr>]"
proof -
  have "filter (\<lambda>t. is_parse (callback t)) (cleared (debounceRef st) (timers st)) = []"
    using cleared_parse_none[OF assms] by (simp add: filter_empty_conv)
  then show ?thesis by (simp add: pending_parse_def scheduleParse_eq)
qed

lemma pending_parse_scheduleCursorSync:
  assumes "timers_inv st"
  shows "pending_parse (scheduleCursorSync config val st) = pending_parse st"
proof (cases "followCursorRef st \<and> monacoEditorRef st \<noteq> None")
  case False
  then have "scheduleCursorSync config val st = st"
    by (subst scheduleCursorSync_eq) auto
  then show ?thesis by simp
next
  case True
  have keep: "filter (\<lambda>t. is_parse (callback t)) (cleared (cursorDebounceRef st) (timers st))
      = filter (\<lambda>t. is_parse (callback t)) (timers st)"
  proof (cases "cursorDebounceRef st")
    case None
    then show ?thesis by (simp add: cleared_def)
  next
    case (Some h)
    have "handle t \<noteq> h" if "t \<in> set (timers st)" "is_parse (callback t)" for t
    proof -
      from that assms have "debounceRef st = Some (handle t)" by (simp add: inv_member(2))
      with assms Some show ?thesis by (auto simp: timers_inv_def)
    qed
    then have "filter (\<lambda>t. is_parse (callback t)) (filter (\<lambda>t. handle t \<noteq> h) (timers st))
        = filter (\<lambda>t. is_parse (callback t)) (timers st)"
      by (auto intro: filter_cong)
    with Some show ?thesis by (simp add: cleared_def)
  qed
  from True have "scheduleCursorSync config val st
      = st\<lparr>timers := cleared (cursorDebounceRef st) (timers st)
                       @ [\<lparr>handle = nextHandle st, delay = 120,
                            callback = CursorSyncCallback val config\<rparr>],
           nextHandle := nextHandle st + 1,
           cursorDebounceRef := Some (nextHandle st)\<rparr>"
    by (subst scheduleCursorSync_eq) simp
  with keep show ?thesis by (simp add: pending_parse_def)
qed

lemma pending_parse_TextChanged:
  assumes "timers_inv st"
  shows "pending_parse (step parse (TextChanged val) st)
       = [\<lparr>handle = nextHandle st, delay = 450, callback = ParseCallback val\<rparr>]"
proof -
  let ?sta = "setEditorValue val st"
  have 0: "timers_inv ?sta" using assms by (simp add: inv_setEditorValue)
  then have 1: "timers_inv (scheduleParse val ?sta)" by (rule timers_inv_scheduleParse)
  have "pending_parse (step parse (TextChanged val) st) = pending_parse (scheduleParse val ?sta)"
    using pending_parse_scheduleCursorSync[OF 1] by simp
  also have "\<dots> = [\<lparr>handle = nextHandle ?sta, delay = 450, callback = ParseCallback val\<rparr>]"
    using 0 by (rule pending_parse_scheduleParse)
  finally show ?thesis by (simp add: setEditorValue_def)
qed

lemma find_distinct:
  "distinct (map f xs) \<Longrightarrow> t \<in> set xs \<Longrightarrow> find (\<lambda>x. f x = f t) xs = Some t"
  by (induction xs) (auto simp: image_iff)

lemma parsedConfig_setParsedConfig: "parsedConfig (setParsedConfig config st) = config"
  by (simp add: setParsedConfig_def Let_def split: option.splits)

lemma parse_timer_fires:
  assumes "timers_inv st"
    and "pending_parse st = [\<lparr>handle = h, delay = d, callback = ParseCallback val\<rparr>]"
  shows "parsedConfig (step parse (TimerFires h) st) = parse val
       \<and> pending_parse (step parse (TimerFires h) st) = []"
proof -
  let ?t = "\<lparr>handle = h, delay = d, callback = ParseCallback val\<rparr>"
  let ?st1 = "st\<lparr>timers := filter (\<lambda>t. handle t \<noteq> h) (timers st)\<rparr>"
  have "?t \<in> set (pending_parse st)" using assms(2) by simp
  then have m: "?t \<in> set (timers st)" by (simp add: pending_parse_def)
  from assms(1) have "distinct (map handle (timers st))" by (simp add: timers_inv_def)
  from find_distinct[OF this m] have f: "find (\<lambda>t. handle t = h) (timers st) = Some ?t" by simp
  then have s: "step parse (TimerFires h) st = setParsedConfig (parse val) ?st1"
    by (simp add: runCallback_def)
  have "pending_parse ?st1 = filter (\<lambda>t. handle t \<noteq> h) (pending_parse st)"
    by (simp add: pending_parse_def conj_commute)
  with assms(2) have "pending_parse ?st1 = []" by simp
  moreover have "pending_parse (setParsedConfig (parse val) ?st1) = pending_parse ?st1"
    using setParsedConfig_frame[of "parse val" ?st1] by (simp add: pending_parse_def)
  ultimately show ?thesis using s by (simp add: parsedConfig_setParsedConfig)
qed

lemma pending_cursor_scheduleCursorSync:
  assumes "timers_inv st" "followCursorRef st" "monacoEditorRef st \<noteq> None"
  shows "pending_cursor (scheduleCursorSync config val st)
       = [\<lparr>handle = nextHandle st, delay = 120, callback = CursorSyncCallback val config\<rparr>]"
proof -
  have "filter (\<lambda>t. \<not> is_parse (callback t)) (cleared (cursorDebounceRef st) (timers st)) = []"
    using cleared_cursor_none[OF assms(1)] by (simp add: filter_empty_conv)
  moreover from assms(2,3) have "scheduleCursorSync config val st
      = st\<lparr>timers := cleared (cursorDebounceRef st) (timers st)
                       @ [\<lparr>handle = nextHandle st, delay = 120,
                            callback = CursorSyncCallback val config\<rparr>],
           nextHandle := nextHandle st + 1,
           cursorDebounceRef := Some (nextHandle st)\<rparr>"
    by (subst scheduleCursorSync_eq) simp
  ultimately show ?thesis by (simp add: pending_cursor_def)
qed

lemma scheduleCursorSync_guard:
  "\<not> (followCursorRef st \<and> monacoEditorRef st \<noteq> None) \<Longrightarrow>
     scheduleCursorSync config val st = st"
  by (subst scheduleCursorSync_eq) auto

lemma pending_cursor_scheduleParse:
  assumes "timers_inv st"
  shows "pending_cursor (scheduleParse val st) = pending_cursor st"
proof -
  have keep: "filter (\<lambda>t. \<not> is_parse (callback t)) (cleared (debounceRef st) (timers st))
      = filter (\<lambda>t. \<not> is_parse (callback t)) (timers st)"
  proof (cases "debounceRef st")
    case None
    then show ?thesis by (simp add: cleared_def)
  next
    case (Some h)
    have "handle t \<noteq> h" if "t \<in> set (timers st)" "\<not> is_parse (callback t)" for t
    proof -
      from that assms have "cursorDebounceRef st = Some (handle t)" by (simp add: inv_member(3))
      with assms Some show ?thesis by (auto simp: timers_inv_def)
    qed
    then have "filter (\<lambda>t. \<not> is_parse (callback t)) (filter (\<lambda>t. handle t \<noteq> h) (timers st))
        = filter (\<lambda>t. \<not> is_parse (callback t)) (timers st)"
      by (auto intro: filter_cong)
    with Some show ?thesis by (simp add: cleared_def)
  qed
  then show ?thesis by (simp add: pending_cursor_def scheduleParse_eq)
qed

lemma pending_cursor_TextChanged:
  assumes "timers_inv st" "followCursorRef st" "monacoEditorRef st \<noteq> None"
  shows "pending_cursor (step parse (TextChanged val) st)
       = [\<lparr>handle = nextHandle st + 1, delay = 120,
           callback = CursorSyncCallback val (parsedConfig st)\<rparr>]"
proof -
  let ?sta = "setEditorValue val st"
  let ?stb = "scheduleParse val ?sta"
  have 0: "timers_inv ?sta" using assms(1) by (simp add: inv_setEditorValue)
  then have 1: "timers_inv ?stb" by (rule timers_inv_scheduleParse)
  have f: "followCursorRef ?stb" using assms(2) by (simp add: scheduleParse_eq setEditorValue_def)
  have m: "monacoEditorRef ?stb \<noteq> None"
    using assms(3) by (simp add: scheduleParse_eq setEditorValue_def)
  have n: "nextHandle ?stb = nextHandle st + 1"
    by (simp add: scheduleParse_eq setEditorValue_def)
  from pending_cursor_scheduleCursorSync[OF 1 f m, of "parsedConfig st" val] n
  show ?thesis by simp
qed

lemma pending_cursor_TextChanged_guard:
  assumes "timers_inv st" "\<not> (followCursorRef st \<and> monacoEditorRef st \<noteq> None)"
  shows "pending_cursor (step parse (TextChanged val) st) = pending_cursor st"
proof -
  let ?sta = "setEditorValue val st"
  let ?stb = "scheduleParse val ?sta"
  have 0: "timers_inv ?sta" using assms(1) by (simp add: inv_setEditorValue)
  have g: "\<not> (followCursorRef ?stb \<and> monacoEditorRef ?stb \<noteq> None)"
    using assms(2) by (auto simp: scheduleParse_eq setEditorValue_def)
  have "step parse (TextChanged val) st = ?stb"
    using scheduleCursorSync_guard[OF g] by simp
  moreover have "pending_cursor ?stb = pending_cursor ?sta"
    using 0 by (rule pending_cursor_scheduleParse)
  moreover have "pending_cursor ?sta = pending_cursor st"
    by (simp add: pending_cursor_def setEditorValue_def)
  ultimately show ?thesis by simp
qed

lemma pending_cursor_CursorMoved:
  assumes "timers_inv st" "followCursorRef st" "monacoEditorRef st = Some ed"
  shows "pending_cursor (step parse (CursorMoved off) st)
       = [\<lparr>handle = nextHandle st, delay = 120,
           callback = CursorSyncCallback (edValue ed) listenerConfig\<rparr>]"
proof -
  let ?sta = "st\<lparr>monacoEditorRef := Some (ed\<lparr>edOffset := Some off\<rparr>)\<rparr>"
  have "timers_inv ?sta = timers_inv st" by (rule timers_inv_eq) simp
  with assms(1) have 1: "timers_inv ?sta" by simp
  have "pending_cursor (scheduleCursorSync listenerConfig (edValue ed) ?sta)
      = [\<lparr>handle = nextHandle ?sta, delay = 120,
          callback = CursorSyncCallback (edValue ed) listenerConfig\<rparr>]"
    using 1 assms(2) by (intro pending_cursor_scheduleCursorSync) simp_all
  with assms(3) show ?thesis by simp
qed

lemma pending_cursor_CursorMoved_guard:
  assumes "\<not> (followCursorRef st \<and> monacoEditorRef st \<noteq> None)"
  shows "pending_cursor (step parse (CursorMoved off) st) = pending_cursor st"
proof (cases "monacoEditorRef st")
  case None
  then show ?thesis by simp
next
  case (Some ed)
  with assms have "\<not> followCursorRef st" by simp
  then have "scheduleCursorSync listenerConfig (edValue ed)
      (st\<lparr>monacoEditorRef := Some (ed\<lparr>edOffset := Some off\<rparr>)\<rparr>)
      = st\<lparr>monacoEditorRef := Some (ed\<lparr>edOffset := Some off\<rparr>)\<rparr>"
    by (intro scheduleCursorSync_guard) simp
  with Some show ?thesis by (simp add: pending_cursor_def)
qed

lemma pending_cursor_SetFollowCursor:
  assumes "timers_inv st" "parsedConfig st \<noteq> None" "\<not> followCursor st"
    "monacoEditorRef st = Some ed"
  shows "pending_cursor (step parse (SetFollowCursor True) st)
       = [\<lparr>handle = nextHandle st, delay = 120,
           callback = CursorSyncCallback (edValue ed) (parsedConfig st)\<rparr>]"
proof -
  let ?sta = "st\<lparr>followCursor := True, followCursorRef := True\<rparr>"
  have "timers_inv ?sta = timers_inv st" by (rule timers_inv_eq) simp
  with assms(1) have 1: "timers_inv ?sta" by simp
  have "step parse (SetFollowCursor True) st
      = scheduleCursorSync (parsedConfig ?sta) (edValue ed) ?sta"
    using assms(2,3,4) by (auto simp: setFollowCursor_def)
  moreover have "pending_cursor (scheduleCursorSync (parsedConfig ?sta) (edValue ed) ?sta)
      = [\<lparr>handle = nextHandle ?sta, delay = 120,
          callback = CursorSyncCallback (edValue ed) (parsedConfig ?sta)\<rparr>]"
    using 1 assms(4) by (intro pending_cursor_scheduleCursorSync) simp_all
  ultimately show ?thesis by simp
qed

lemma found_index_in_range:
  "findPageIndexAtOffset rs offset = Some idx \<Longrightarrow> idx < length rs"
  by (simp add: findPageIndexAtOffset_def find_loop_Some)

lemma fresh_handle:
  "timers_inv st \<Longrightarrow> \<forall>t \<in> set (timers st). handle t < nextHandle st"
  by (simp add: timers_inv_def)

lemma run_snoc: "run parse (evs @ [e]) st = step parse e (run parse evs st)"
  by (simp add: run_def)

lemma ex_parse_simps: "ex_parse ex_one = Some 1" "ex_parse ex_two = Some 2"
  by (simp_all add: ex_parse_def ex_one_def ex_two_def)

text \<open>
  Claim C8. After any sequence of events at most one parse timeout and at most one
  cursor timeout are pending, and the handle of a new timeout is none of the pending
  ones. \<^verbatim>\<open>onChange\<close> always cancels the pending parse timeout and puts one for its text
  in its place. For the cursor timeout this holds while the cursor is followed and the
  editor is mounted: then a cursor movement or \<^verbatim>\<open>onChange\<close> cancels the pending cursor
  timeout and puts a new one in its place; otherwise the event leaves the pending cursor
  timeout as it is. When \<^verbatim>\<open>onChange\<close> is called five times with no parse timeout elapsing
  in between (the calls fall within less than its delay), exactly one parse timeout is
  pending afterwards, it holds the text of the last call, and when it fires the
  configuration becomes the parse of that text and no parse timeout remains.
\<close>

theorem one_timer_per_kind:
  "length (pending_parse (run parse evs init)) \<le> 1
   \<and> length (pending_cursor (run parse evs init)) \<le> 1
   \<and> (\<forall>t \<in> set (timers (run parse evs init)). handle t < nextHandle (run parse evs init))
   \<and> pending_parse (run parse (evs @ [TextChanged val]) init)
       = [\<lparr>handle = nextHandle (run parse evs init), delay = 450, callback = ParseCallback val\<rparr>]
   \<and> (followCursorRef (run parse evs init) \<and> monacoEditorRef (run parse evs init) = Some ed \<longrightarrow>
        pending_cursor (run parse (evs @ [CursorMoved off]) init)
          = [\<lparr>handle = nextHandle (run parse evs init), delay = 120,
              callback = CursorSyncCallback (edValue ed) None\<rparr>]
        \<and> pending_cursor (run parse (evs @ [TextChanged val]) init)
          = [\<lparr>handle = nextHandle (run parse evs init) + 1, delay = 120,
              callback = CursorSyncCallback val (parsedConfig (run parse evs init))\<rparr>])
   \<and> (\<not> (followCursorRef (run parse evs init) \<and> monacoEditorRef (run parse evs init) \<noteq> None) \<longrightarrow>
        pending_cursor (run parse (evs @ [CursorMoved off]) init)
          = pending_cursor (run parse evs init)
        \<and> pending_cursor (run parse (evs @ [TextChanged val]) init)
          = pending_cursor (run parse evs init))
   \<and> (\<exists>h. pending_parse (run parse (evs @ [TextChanged t1, TextChanged t2, TextChanged t3,
                                            TextChanged t4, TextChanged t5]) init)
              = [\<lparr>handle = h, delay = 450, callback = ParseCallback t5\<rparr>]
          \<and> parsedConfig (run parse (evs @ [TextChanged t1, TextChanged t2, TextChanged t3,
                                            TextChanged t4, TextChanged t5, TimerFires h]) init)
              = parse t5
          \<and> pending_parse (run parse (evs @ [TextChanged t1, TextChanged t2, TextChanged t3,
                                            TextChanged t4, TextChanged t5, TimerFires h]) init)
              = [])"
proof -
  let ?st = "run parse evs init"
  have inv: "timers_inv ?st" by (rule timers_inv_run)
  have a: "length (pending_parse ?st) \<le> 1" using inv by (rule at_most_one_parse)
  have b: "length (pending_cursor ?st) \<le> 1" using inv by (rule at_most_one_cursor)
  have c: "\<forall>t \<in> set (timers ?st). handle t < nextHandle ?st" using inv by (rule fresh_handle)
  have d: "pending_parse (run parse (evs @ [TextChanged val]) init)
      = [\<lparr>handle = nextHandle ?st, delay = 450, callback = ParseCallback val\<rparr>]"
    unfolding run_snoc using inv by (rule pending_parse_TextChanged)
  have e: "pending_cursor (run parse (evs @ [CursorMoved off]) init)
          = [\<lparr>handle = nextHandle ?st, delay = 120,
              callback = CursorSyncCallback (edValue ed) None\<rparr>]
        \<and> pending_cursor (run parse (evs @ [TextChanged val]) init)
          = [\<lparr>handle = nextHandle ?st + 1, delay = 120,
              callback = CursorSyncCallback val (parsedConfig ?st)\<rparr>]"
    if g: "followCursorRef ?st \<and> monacoEditorRef ?st = Some ed"
  proof
    from g have f: "followCursorRef ?st" and m: "monacoEditorRef ?st = Some ed" by simp_all
    from pending_cursor_CursorMoved[OF inv f m, of parse off]
    show "pending_cursor (run parse (evs @ [CursorMoved off]) init)
          = [\<lparr>handle = nextHandle ?st, delay = 120,
              callback = CursorSyncCallback (edValue ed) None\<rparr>]"
      by (simp add: run_snoc listenerConfig_def)
    from m have m': "monacoEditorRef ?st \<noteq> None" by simp
    from pending_cursor_TextChanged[OF inv f m', of parse val]
    show "pending_cursor (run parse (evs @ [TextChanged val]) init)
          = [\<lparr>handle = nextHandle ?st + 1, delay = 120,
              callback = CursorSyncCallback val (parsedConfig ?st)\<rparr>]"
      by (simp add: run_snoc)
  qed
  have f: "pending_cursor (run parse (evs @ [CursorMoved off]) init) = pending_cursor ?st
        \<and> pending_cursor (run parse (evs @ [TextChanged val]) init) = pending_cursor ?st"
    if g: "\<not> (followCursorRef ?st \<and> monacoEditorRef ?st \<noteq> None)"
    unfolding run_snoc
    using pending_cursor_CursorMoved_guard[OF g] pending_cursor_TextChanged_guard[OF inv g]
    by simp
  let ?st4 = "run parse (evs @ [TextChanged t1, TextChanged t2, TextChanged t3, TextChanged t4]) init"
  let ?st5 = "run parse (evs @ [TextChanged t1, TextChanged t2, TextChanged t3, TextChanged t4,
      TextChanged t5]) init"
  have 5: "?st5 = step parse (TextChanged t5) ?st4" by (simp add: run_def)
  have inv4: "timers_inv ?st4" by (rule timers_inv_run)
  have inv5: "timers_inv ?st5" by (rule timers_inv_run)
  have p: "pending_parse ?st5 = [\<lparr>handle = nextHandle ?st4, delay = 450, callback = ParseCallback t5\<rparr>]"
    unfolding 5 using inv4 by (rule pending_parse_TextChanged)
  have 6: "run parse (evs @ [TextChanged t1, TextChanged t2, TextChanged t3, TextChanged t4,
      TextChanged t5, TimerFires h]) init = step parse (TimerFires h) ?st5" for h
    by (simp add: run_def)
  from parse_timer_fires[OF inv5 p, of parse] p 6
  have g: "\<exists>h. pending_parse ?st5 = [\<lparr>handle = h, delay = 450, callback = ParseCallback t5\<rparr>]
          \<and> parsedConfig (run parse (evs @ [TextChanged t1, TextChanged t2, TextChanged t3,
                                            TextChanged t4, TextChanged t5, TimerFires h]) init)
              = parse t5
          \<and> pending_parse (run parse (evs @ [TextChanged t1, TextChanged t2, TextChanged t3,
                                            TextChanged t4, TextChanged t5, TimerFires h]) init)
              = []"
    by (intro exI[of _ "nextHandle ?st4"]) simp
  from a b c d e f g show ?thesis by blast
qed

theorem one_timer_per_kind_witness:
  "pending_parse (run ex_parse [ConfigLoaded ex_two, EditorMounted, TextChanged ex_two] init)
     = [\<lparr>handle = 1, delay = 450, callback = ParseCallback ex_two\<rparr>]
   \<and> pending_cursor (run ex_parse [ConfigLoaded ex_two, EditorMounted, TextChanged ex_two] init)
     = [\<lparr>handle = 2, delay = 120, callback = CursorSyncCallback ex_two (Some 2)\<rparr>]
   \<and> nextHandle (run ex_parse [ConfigLoaded ex_two, EditorMounted, TextChanged ex_two] init) = 3
   \<and> followCursorRef (run ex_parse [ConfigLoaded ex_two, EditorMounted, TextChanged ex_two] init)
   \<and> monacoEditorRef (run ex_parse [ConfigLoaded ex_two, EditorMounted, TextChanged ex_two] init)
     = Some \<lparr>edValue = ex_two, edOffset = Some 0\<rparr>
   \<and> pending_parse (run ex_parse [ConfigLoaded ex_two, EditorMounted, TextChanged ex_two,
                                   TextChanged ex_one] init)
     = [\<lparr>handle = 3, delay = 450, callback = ParseCallback ex_one\<rparr>]
   \<and> pending_cursor (run ex_parse [ConfigLoaded ex_two, EditorMounted, TextChanged ex_two,
                                    TextChanged ex_one] init)
     = [\<lparr>handle = 4, delay = 120, callback = CursorSyncCallback ex_one (Some 2)\<rparr>]
   \<and> pending_cursor (run ex_parse [ConfigLoaded ex_two, EditorMounted, TextChanged ex_two,
                                    CursorMoved 30] init)
     = [\<lparr>handle = 3, delay = 120, callback = CursorSyncCallback ex_two None\<rparr>]
   \<and> \<not> followCursorRef (run ex_parse [ConfigLoaded ex_two, EditorMounted, TextChanged ex_two,
                                       GoNext] init)
   \<and> pending_cursor (run ex_parse [ConfigLoaded ex_two, EditorMounted, TextChanged ex_two,
                                    GoNext, CursorMoved 30] init)
     = [\<lparr>handle = 2, delay = 120, callback = CursorSyncCallback ex_two (Some 2)\<rparr>]
   \<and> pending_cursor (run ex_parse [ConfigLoaded ex_two, EditorMounted, TextChanged ex_two,
                                    GoNext, TextChanged ex_one] init)
     = [\<lparr>handle = 2, delay = 120, callback = CursorSyncCallback ex_two (Some 2)\<rparr>]
   \<and> pending_parse (run ex_parse [ConfigLoaded ex_one, EditorMounted, TextChanged ex_two,
        TextChanged ex_one, TextChanged ex_two, TextChanged ex_one, TextChanged ex_two] init)
     = [\<lparr>handle = 9, delay = 450, callback = ParseCallback ex_two\<rparr>]
   \<and> parsedConfig (run ex_parse [ConfigLoaded ex_one, EditorMounted, TextChanged ex_two,
        TextChanged ex_one, TextChanged ex_two, TextChanged ex_one, TextChanged ex_two,
        TimerFires 9] init) = Some 2
   \<and> pending_parse (run ex_parse [ConfigLoaded ex_one, EditorMounted, TextChanged ex_two,
        TextChanged ex_one, TextChanged ex_two, TextChanged ex_one, TextChanged ex_two,
        TimerFires 9] init) = []"
proof -
  let ?E = "[ConfigLoaded ex_two, EditorMounted, TextChanged ex_two]"
  let ?F = "[ConfigLoaded ex_two, EditorMounted, TextChanged ex_two, GoNext]"
  let ?ed = "\<lparr>edValue = ex_two, edOffset = Some 0\<rparr>"
  have s: "pending_parse (run ex_parse ?E init)
        = [\<lparr>handle = 1, delay = 450, callback = ParseCallback ex_two\<rparr>]
      \<and> pending_cursor (run ex_parse ?E init)
        = [\<lparr>handle = 2, delay = 120, callback = CursorSyncCallback ex_two (Some 2)\<rparr>]
      \<and> nextHandle (run ex_parse ?E init) = 3
      \<and> followCursorRef (run ex_parse ?E init)
      \<and> monacoEditorRef (run ex_parse ?E init) = Some ?ed
      \<and> parsedConfig (run ex_parse ?E init) = Some 2"
    by code_simp
  have u: "\<not> followCursorRef (run ex_parse ?F init)
      \<and> pending_cursor (run ex_parse ?F init)
        = [\<lparr>handle = 2, delay = 120, callback = CursorSyncCallback ex_two (Some 2)\<rparr>]"
    by code_simp
  have v: "pending_parse (run ex_parse [ConfigLoaded ex_one, EditorMounted, TextChanged ex_two,
        TextChanged ex_one, TextChanged ex_two, TextChanged ex_one, TextChanged ex_two] init)
     = [\<lparr>handle = 9, delay = 450, callback = ParseCallback ex_two\<rparr>]"
    by code_simp
  note A = one_timer_per_kind[where parse = ex_parse and evs = "?E" and val = ex_one
      and ed = "?ed" and off = 30]
  note B = one_timer_per_kind[where parse = ex_parse and evs = "?F" and val = ex_one and off = 30]
  note C = one_timer_per_kind[where parse = ex_parse and evs = "[ConfigLoaded ex_one, EditorMounted]"
      and ?t1.0 = ex_two and ?t2.0 = ex_one and ?t3.0 = ex_two and ?t4.0 = ex_one and ?t5.0 = ex_two]
  from C obtain h where h: "pending_parse (run ex_parse ([ConfigLoaded ex_one, EditorMounted]
        @ [TextChanged ex_two, TextChanged ex_one, TextChanged ex_two, TextChanged ex_one,
           TextChanged ex_two]) init)
      = [\<lparr>handle = h, delay = 450, callback = ParseCallback ex_two\<rparr>]
    \<and> parsedConfig (run ex_parse ([ConfigLoaded ex_one, EditorMounted]
        @ [TextChanged ex_two, TextChanged ex_one, TextChanged ex_two, TextChanged ex_one,
           TextChanged ex_two, TimerFires h]) init) = ex_parse ex_two
    \<and> pending_parse (run ex_parse ([ConfigLoaded ex_one, EditorMounted]
        @ [TextChanged ex_two, TextChanged ex_one, TextChanged ex_two, TextChanged ex_one,
           TextChanged ex_two, TimerFires h]) init) = []"
    by blast
  with v have "h = 9" by simp
  with h have w: "parsedConfig (run ex_parse [ConfigLoaded ex_one, EditorMounted, TextChanged ex_two,
        TextChanged ex_one, TextChanged ex_two, TextChanged ex_one, TextChanged ex_two,
        TimerFires 9] init) = Some 2
   \<and> pending_parse (run ex_parse [ConfigLoaded ex_one, EditorMounted, TextChanged ex_two,
        TextChanged ex_one, TextChanged ex_two, TextChanged ex_one, TextChanged ex_two,
        TimerFires 9] init) = []"
    by (simp add: ex_parse_simps)
  from A s have a: "pending_parse (run ex_parse (?E @ [TextChanged ex_one]) init)
       = [\<lparr>handle = 3, delay = 450, callback = ParseCallback ex_one\<rparr>]
     \<and> pending_cursor (run ex_parse (?E @ [CursorMoved 30]) init)
          = [\<lparr>handle = 3, delay = 120, callback = CursorSyncCallback ex_two None\<rparr>]
     \<and> pending_cursor (run ex_parse (?E @ [TextChanged ex_one]) init)
          = [\<lparr>handle = 4, delay = 120, callback = CursorSyncCallback ex_one (Some 2)\<rparr>]"
    by simp
  from B u have b: "pending_cursor (run ex_parse (?F @ [CursorMoved 30]) init)
       = [\<lparr>handle = 2, delay = 120, callback = CursorSyncCallback ex_two (Some 2)\<rparr>]
     \<and> pending_cursor (run ex_parse (?F @ [TextChanged ex_one]) init)
       = [\<lparr>handle = 2, delay = 120, callback = CursorSyncCallback ex_two (Some 2)\<rparr>]"
    by simp
  from s u v w a b show ?thesis by simp
qed

text \<open>
  Without the condition on following, the replacement fails. The cursor moves while it
  is followed, which schedules the cursor timeout 1, and \<^verbatim>\<open>goNext\<close> turns following
  off. A further cursor movement or text change then neither cancels the timeout 1 nor
  schedules another: the timeout that stays pending is the old one, with its old text.
\<close>

theorem one_timer_per_kind_counterexample:
  "pending_cursor (run ex_parse [ConfigLoaded ex_two, EditorMounted, CursorMoved 20, GoNext] init)
     = [\<lparr>handle = 1, delay = 120, callback = CursorSyncCallback ex_two None\<rparr>]
   \<and> pending_cursor (run ex_parse [ConfigLoaded ex_two, EditorMounted, CursorMoved 20, GoNext,
                                    CursorMoved 30] init)
     = [\<lparr>handle = 1, delay = 120, callback = CursorSyncCallback ex_two None\<rparr>]
   \<and> cursorDebounceRef (run ex_parse [ConfigLoaded ex_two, EditorMounted, CursorMoved 20, GoNext,
                                       CursorMoved 30] init) = Some 1
   \<and> pending_cursor (run ex_parse [ConfigLoaded ex_two, EditorMounted, CursorMoved 20, GoNext,
                                    TextChanged ex_one] init)
     = [\<lparr>handle = 1, delay = 120, callback = CursorSyncCallback ex_two None\<rparr>]"
  by code_simp

subsection \<open>Following the cursor\<close>

lemma scheduleCursorSync_follow_off:
  "\<not> followCursorRef st \<Longrightarrow> scheduleCursorSync config val st = st"
  by (simp add: scheduleCursorSync_def)

lemma navigate_follow_off:
  "parsedConfig st \<noteq> None \<Longrightarrow>
     \<not> followCursor (navigate d st) \<and> \<not> followCursorRef (navigate d st)"
  by (auto simp: navigate_def)

lemma cursor_moved_follow_off:
  "\<not> followCursorRef st \<Longrightarrow>
     activePageIndex (step parse (CursorMoved off) st) = activePageIndex st
     \<and> timers (step parse (CursorMoved off) st) = timers st"
  by (simp add: scheduleCursorSync_follow_off split: option.splits)

text \<open>
  Claim C7. The claim fails on this trace: the configuration with two pages is loaded,
  the editor is mounted, the cursor moves to offset 20 (inside the first page) while
  the cursor is followed, and \<^verbatim>\<open>goNext\<close> is called before the cursor timeout elapses.
  The navigation turns following off and shows page 1; the timeout then fires, with
  following still off, and sets the active index back to the page of the cursor.
\<close>

theorem pending_cursor_timer_overrides_manual_navigation:
  "pending_cursor (run ex_parse [ConfigLoaded ex_two, EditorMounted, CursorMoved 20, GoNext] init)
     = [\<lparr>handle = 1, delay = 120, callback = CursorSyncCallback ex_two None\<rparr>]
   \<and> followCursor (run ex_parse [ConfigLoaded ex_two, EditorMounted, CursorMoved 20, GoNext] init) = False
   \<and> activePageIndex (run ex_parse [ConfigLoaded ex_two, EditorMounted, CursorMoved 20, GoNext] init) = 1
   \<and> followCursor (run ex_parse [ConfigLoaded ex_two, EditorMounted, CursorMoved 20, GoNext,
                                  TimerFires 1] init) = False
   \<and> activePageIndex (run ex_parse [ConfigLoaded ex_two, EditorMounted, CursorMoved 20, GoNext,
                                     TimerFires 1] init) = 0"
  by code_simp

subsection \<open>The bound of the cursor sync\<close>

lemma clampIndex_below: "idx < n \<Longrightarrow> clampIndex (int idx) (int n) = int idx"
  by (simp add: clampIndex_def)

lemma cursor_timer_fires:
  assumes "find (\<lambda>t. handle t = h) (timers st) = Some t"
    and "callback t = CursorSyncCallback nextText config"
    and "monacoEditorRef st = Some ed" and "edOffset ed = Some offset"
    and "findPageIndexAtOffset (computePagesRanges nextText) offset = Some idx"
  shows "activePageIndex (step parse (TimerFires h) st)
          = clampIndex (int idx)
              (int (if pagesLength config \<noteq> 0 then pagesLength config
                    else if length (computePagesRanges nextText) \<noteq> 0
                         then length (computePagesRanges nextText)
                    else 1))"
  using assms by (simp add: runCallback_def Let_def)

lemma listener_timer_fires:
  assumes "find (\<lambda>t. handle t = h) (timers st) = Some t"
    and "callback t = CursorSyncCallback nextText None"
    and "monacoEditorRef st = Some ed" and "edOffset ed = Some offset"
    and "findPageIndexAtOffset (computePagesRanges nextText) offset = Some idx"
  shows "activePageIndex (step parse (TimerFires h) st) = int idx"
proof -
  from assms(5) have "idx < length (computePagesRanges nextText)"
    by (rule found_index_in_range)
  then have "clampIndex (int idx) (int (length (computePagesRanges nextText))) = int idx"
    by (rule clampIndex_below)
  moreover from assms(5) have "length (computePagesRanges nextText) \<noteq> 0"
    using \<open>idx < length (computePagesRanges nextText)\<close> by auto
  ultimately show ?thesis
    using cursor_timer_fires[OF assms, of parse] by (simp add: pagesLength_def)
qed

text \<open>
  Claim C10. When a cursor timeout fires and the resolver finds an index, the active
  index becomes that index clamped by the page count of the configuration that the
  callback holds, or when that is zero by the number of ranges just scanned, or else
  by 1. A callback scheduled by \<^verbatim>\<open>onChange\<close> or by turning following on holds the
  configuration parsed last before it was scheduled. A callback scheduled by the cursor
  listener holds \<^verbatim>\<open>null\<close>: its bound is the number of ranges just scanned and the active
  index becomes the index found. The configuration held can be the parse of an older
  text: after a configuration of one page is loaded and the text is changed to two
  pages, the timeout scheduled by the change fires before the new text is parsed, and a
  cursor inside the second page publishes index 0.
\<close>

theorem cursor_sync_clamp_bound:
  "(find (\<lambda>t. handle t = h) (timers st) = Some t
      \<and> callback t = CursorSyncCallback nextText config
      \<and> monacoEditorRef st = Some ed \<and> edOffset ed = Some offset
      \<and> findPageIndexAtOffset (computePagesRanges nextText) offset = Some idx
    \<longrightarrow> activePageIndex (step safeJsonParse (TimerFires h) st)
          = clampIndex (int idx)
              (int (if pagesLength config \<noteq> 0 then pagesLength config
                    else if length (computePagesRanges nextText) \<noteq> 0
                         then length (computePagesRanges nextText)
                    else 1))
        \<and> (config = None \<longrightarrow>
              activePageIndex (step safeJsonParse (TimerFires h) st) = int idx))
   \<and> (followCursorRef (run safeJsonParse evs init)
       \<and> monacoEditorRef (run safeJsonParse evs init) = Some ed'
    \<longrightarrow> pending_cursor (run safeJsonParse (evs @ [TextChanged val]) init)
          = [\<lparr>handle = nextHandle (run safeJsonParse evs init) + 1, delay = 120,
              callback = CursorSyncCallback val (parsedConfig (run safeJsonParse evs init))\<rparr>]
        \<and> pending_cursor (run safeJsonParse (evs @ [CursorMoved off]) init)
          = [\<lparr>handle = nextHandle (run safeJsonParse evs init), delay = 120,
              callback = CursorSyncCallback (edValue ed') None\<rparr>])
   \<and> (parsedConfig (run safeJsonParse evs init) \<noteq> None
       \<and> \<not> followCursor (run safeJsonParse evs init)
       \<and> monacoEditorRef (run safeJsonParse evs init) = Some ed'
    \<longrightarrow> pending_cursor (run safeJsonParse (evs @ [SetFollowCursor True]) init)
          = [\<lparr>handle = nextHandle (run safeJsonParse evs init), delay = 120,
              callback = CursorSyncCallback (edValue ed')
                           (parsedConfig (run safeJsonParse evs init))\<rparr>])
   \<and> pending_cursor (run ex_parse [ConfigLoaded ex_one, EditorMounted, CursorMoved 30,
                                    TextChanged ex_two] init)
       = [\<lparr>handle = 3, delay = 120, callback = CursorSyncCallback ex_two (Some 1)\<rparr>]
   \<and> length (computePagesRanges ex_two) = 2
   \<and> findPageIndexAtOffset (computePagesRanges ex_two) 30 = Some 1
   \<and> activePageIndex (run ex_parse [ConfigLoaded ex_one, EditorMounted, CursorMoved 30,
                                     TextChanged ex_two, TimerFires 3] init) = 0"
proof -
  let ?st = "run safeJsonParse evs init"
  have inv: "timers_inv ?st" by (rule timers_inv_run)
  have a: "activePageIndex (step safeJsonParse (TimerFires h) st)
          = clampIndex (int idx)
              (int (if pagesLength config \<noteq> 0 then pagesLength config
                    else if length (computePagesRanges nextText) \<noteq> 0
                         then length (computePagesRanges nextText)
                    else 1))
        \<and> (config = None \<longrightarrow>
              activePageIndex (step safeJsonParse (TimerFires h) st) = int idx)"
    if "find (\<lambda>t. handle t = h) (timers st) = Some t
      \<and> callback t = CursorSyncCallback nextText config
      \<and> monacoEditorRef st = Some ed \<and> edOffset ed = Some offset
      \<and> findPageIndexAtOffset (computePagesRanges nextText) offset = Some idx"
    using that cursor_timer_fires[of h st t nextText config ed offset idx safeJsonParse]
      listener_timer_fires[of h st t nextText ed offset idx safeJsonParse]
    by blast
  have b: "pending_cursor (run safeJsonParse (evs @ [TextChanged val]) init)
          = [\<lparr>handle = nextHandle ?st + 1, delay = 120,
              callback = CursorSyncCallback val (parsedConfig ?st)\<rparr>]
        \<and> pending_cursor (run safeJsonParse (evs @ [CursorMoved off]) init)
          = [\<lparr>handle = nextHandle ?st, delay = 120,
              callback = CursorSyncCallback (edValue ed') None\<rparr>]"
    if g: "followCursorRef ?st \<and> monacoEditorRef ?st = Some ed'"
  proof
    from g have f: "followCursorRef ?st" and m: "monacoEditorRef ?st = Some ed'" by simp_all
    from m have m': "monacoEditorRef ?st \<noteq> None" by simp
    from pending_cursor_TextChanged[OF inv f m', of safeJsonParse val]
    show "pending_cursor (run safeJsonParse (evs @ [TextChanged val]) init)
          = [\<lparr>handle = nextHandle ?st + 1, delay = 120,
              callback = CursorSyncCallback val (parsedConfig ?st)\<rparr>]"
      by (simp add: run_snoc)
    from pending_cursor_CursorMoved[OF inv f m, of safeJsonParse off]
    show "pending_cursor (run safeJsonParse (evs @ [CursorMoved off]) init)
          = [\<lparr>handle = nextHandle ?st, delay = 120,
              callback = CursorSyncCallback (edValue ed') None\<rparr>]"
      by (simp add: run_snoc listenerConfig_def)
  qed
  have c: "pending_cursor (run safeJsonParse (evs @ [SetFollowCursor True]) init)
          = [\<lparr>handle = nextHandle ?st, delay = 120,
              callback = CursorSyncCallback (edValue ed') (parsedConfig ?st)\<rparr>]"
    if g: "parsedConfig ?st \<noteq> None \<and> \<not> followCursor ?st \<and> monacoEditorRef ?st = Some ed'"
  proof -
    from g have 1: "parsedConfig ?st \<noteq> None" and 2: "\<not> followCursor ?st"
      and 3: "monacoEditorRef ?st = Some ed'" by simp_all
    from pending_cursor_SetFollowCursor[OF inv 1 2 3, of safeJsonParse]
    show ?thesis by (simp add: run_snoc)
  qed
  have d: "pending_cursor (run ex_parse [ConfigLoaded ex_one, EditorMounted, CursorMoved 30,
                                    TextChanged ex_two] init)
       = [\<lparr>handle = 3, delay = 120, callback = CursorSyncCallback ex_two (Some 1)\<rparr>]
   \<and> length (computePagesRanges ex_two) = 2
   \<and> findPageIndexAtOffset (computePagesRanges ex_two) 30 = Some 1
   \<and> activePageIndex (run ex_parse [ConfigLoaded ex_one, EditorMounted, CursorMoved 30,
                                     TextChanged ex_two, TimerFires 3] init) = 0"
    by code_simp
  from a b c d show ?thesis by blast
qed

theorem cursor_sync_clamp_bound_witness:
  "find (\<lambda>t. handle t = 3)
      (timers (run ex_parse [ConfigLoaded ex_one, EditorMounted, CursorMoved 30,
                             TextChanged ex_two] init))
     = Some \<lparr>handle = 3, delay = 120, callback = CursorSyncCallback ex_two (Some 1)\<rparr>
   \<and> monacoEditorRef (run ex_parse [ConfigLoaded ex_one, EditorMounted, CursorMoved 30,
                                     TextChanged ex_two] init)
     = Some \<lparr>edValue = ex_two, edOffset = Some 30\<rparr>
   \<and> findPageIndexAtOffset (computePagesRanges ex_two) 30 = Some 1
   \<and> length (computePagesRanges ex_two) = 2
   \<and> activePageIndex (step ex_parse (TimerFires 3)
        (run ex_parse [ConfigLoaded ex_one, EditorMounted, CursorMoved 30,
                       TextChanged ex_two] init))
     = clampIndex 1 1
   \<and> clampIndex 1 1 = 0
   \<and> find (\<lambda>t. handle t = 3)
      (timers (run ex_parse [ConfigLoaded ex_one, EditorMounted, TextChanged ex_two,
                             CursorMoved 30] init))
     = Some \<lparr>handle = 3, delay = 120, callback = CursorSyncCallback ex_two None\<rparr>
   \<and> activePageIndex (step ex_parse (TimerFires 3)
        (run ex_parse [ConfigLoaded ex_one, EditorMounted, TextChanged ex_two,
                       CursorMoved 30] init))
     = 1
   \<and> followCursorRef (run ex_parse [ConfigLoaded ex_one, EditorMounted] init)
   \<and> monacoEditorRef (run ex_parse [ConfigLoaded ex_one, EditorMounted] init)
     = Some \<lparr>edValue = ex_one, edOffset = Some 0\<rparr>
   \<and> parsedConfig (run ex_parse [ConfigLoaded ex_one, EditorMounted] init) = Some 1
   \<and> pending_cursor (run ex_parse [ConfigLoaded ex_one, EditorMounted, TextChanged ex_two] init)
       = [\<lparr>handle = 2, delay = 120, callback = CursorSyncCallback ex_two (Some 1)\<rparr>]
   \<and> pending_cursor (run ex_parse [ConfigLoaded ex_one, EditorMounted, CursorMoved 30] init)
       = [\<lparr>handle = 1, delay = 120, callback = CursorSyncCallback ex_one None\<rparr>]
   \<and> \<not> followCursor (run ex_parse [ConfigLoaded ex_one, EditorMounted, GoNext] init)
   \<and> pending_cursor (run ex_parse [ConfigLoaded ex_one, EditorMounted, GoNext,
                                    SetFollowCursor True] init)
       = [\<lparr>handle = 1, delay = 120, callback = CursorSyncCallback ex_one (Some 1)\<rparr>]"
proof -
  let ?sta = "run ex_parse [ConfigLoaded ex_one, EditorMounted, CursorMoved 30, TextChanged ex_two] init"
  let ?stb = "run ex_parse [ConfigLoaded ex_one, EditorMounted, TextChanged ex_two, CursorMoved 30] init"
  let ?E = "[ConfigLoaded ex_one, EditorMounted]"
  let ?F = "[ConfigLoaded ex_one, EditorMounted, GoNext]"
  let ?ed = "\<lparr>edValue = ex_two, edOffset = Some 30\<rparr>"
  let ?ed' = "\<lparr>edValue = ex_one, edOffset = Some 0\<rparr>"
  let ?ta = "\<lparr>handle = 3, delay = 120, callback = CursorSyncCallback ex_two (Some 1)\<rparr>"
  let ?tb = "\<lparr>handle = 3, delay = 120, callback = CursorSyncCallback ex_two None\<rparr>"
  have sa: "find (\<lambda>t. handle t = 3) (timers ?sta) = Some ?ta \<and> monacoEditorRef ?sta = Some ?ed"
    by code_simp
  have sb: "find (\<lambda>t. handle t = 3) (timers ?stb) = Some ?tb \<and> monacoEditorRef ?stb = Some ?ed"
    by code_simp
  have f: "findPageIndexAtOffset (computePagesRanges ex_two) 30 = Some 1
      \<and> length (computePagesRanges ex_two) = 2"
    by code_simp
  have e: "followCursorRef (run ex_parse ?E init) \<and> monacoEditorRef (run ex_parse ?E init) = Some ?ed'
      \<and> parsedConfig (run ex_parse ?E init) = Some 1 \<and> nextHandle (run ex_parse ?E init) = 1"
    by code_simp
  have g: "\<not> followCursor (run ex_parse ?F init) \<and> monacoEditorRef (run ex_parse ?F init) = Some ?ed'
      \<and> parsedConfig (run ex_parse ?F init) = Some 1 \<and> nextHandle (run ex_parse ?F init) = 1"
    by code_simp
  note A = cursor_sync_clamp_bound[where h = 3 and st = ?sta and t = ?ta and nextText = ex_two
      and config = "Some 1" and ed = ?ed and offset = 30 and idx = 1 and safeJsonParse = ex_parse
      and evs = ?E and ed' = ?ed' and val = ex_two and off = 30]
  note B = cursor_sync_clamp_bound[where h = 3 and st = ?stb and t = ?tb and nextText = ex_two
      and config = None and ed = ?ed and offset = 30 and idx = 1 and safeJsonParse = ex_parse
      and evs = ?F and ed' = ?ed' and val = ex_two and off = 30]
  from sa f e A have a: "activePageIndex (step ex_parse (TimerFires 3) ?sta) = clampIndex 1 1
      \<and> pending_cursor (run ex_parse (?E @ [TextChanged ex_two]) init)
          = [\<lparr>handle = 2, delay = 120, callback = CursorSyncCallback ex_two (Some 1)\<rparr>]
      \<and> pending_cursor (run ex_parse (?E @ [CursorMoved 30]) init)
          = [\<lparr>handle = 1, delay = 120, callback = CursorSyncCallback ex_one None\<rparr>]"
    by (simp add: pagesLength_def)
  from B sb f g have b: "activePageIndex (step ex_parse (TimerFires 3) ?stb) = 1
      \<and> pending_cursor (run ex_parse (?F @ [SetFollowCursor True]) init)
          = [\<lparr>handle = 1, delay = 120, callback = CursorSyncCallback ex_one (Some 1)\<rparr>]"
    by simp
  have c: "clampIndex 1 1 = 0" by (simp add: clampIndex_def)
  from sa sb f e g a b c show ?thesis by simp
qed

text \<open>
  The bound is not always the page count of the configuration parsed last. A
  configuration of one page is loaded, the text is changed to two pages and the cursor
  moves into the second page. The timeout scheduled by the cursor listener fires while
  the configuration parsed last still has one page; the active index becomes 1, not the
  clamp of 1 by that page count, which is 0.
\<close>

theorem cursor_sync_clamp_bound_counterexample:
  "parsedConfig (run ex_parse [ConfigLoaded ex_one, EditorMounted, TextChanged ex_two,
                               CursorMoved 30] init) = Some 1
   \<and> pending_cursor (run ex_parse [ConfigLoaded ex_one, EditorMounted, TextChanged ex_two,
                                    CursorMoved 30] init)
       = [\<lparr>handle = 3, delay = 120, callback = CursorSyncCallback ex_two None\<rparr>]
   \<and> findPageIndexAtOffset (computePagesRanges ex_two) 30 = Some 1
   \<and> activePageIndex (run ex_parse [ConfigLoaded ex_one, EditorMounted, TextChanged ex_two,
                                     CursorMoved 30, TimerFires 3] init) = 1
   \<and> clampIndex 1 1 = 0"
  by code_simp

end
